theory Spec2Isabelle
  imports Main "HOL-Library.Word"
begin

unbundle bit_operations_syntax

section \<open>Data model\<close>

text \<open>
  The Go types of the package on a 64-bit platform: \<open>byte\<close> is an 8-bit word,
  \<open>uint32\<close> a 32-bit word, \<open>uintptr\<close> and \<open>uint64\<close> 64-bit words. \<open>int64\<close>
  is a 64-bit word as well, read in two's complement (\<open>sint\<close>) where the sign matters;
  Go's \<open>+\<close>, \<open>-\<close> and \<open>*\<close> wrap on all of them, as the word operations do.
\<close>

type_synonym byte = "8 word"
type_synonym uint32 = "32 word"
type_synonym uint64 = "64 word"
type_synonym int64 = "64 word"
type_synonym uintptr = "64 word"

text \<open>
  Every error value the package returns. \<open>EOF\<close> and \<open>ErrUnexpectedEOF\<close> are the
  two errors of package \<open>io\<close>; the others are the messages built with \<open>fmt.Errorf\<close>
  and \<open>errors.New\<close> in \<open>unwind.go\<close> and \<open>loclist.go\<close>, with the value they
  format. \<open>NilByteOrderPanic\<close> is the run-time panic of a method call on a
  \<open>nil\<close> byte order.
\<close>

datatype error =
    EOF
  | ErrUnexpectedEOF
  | EntryTooShort
  | FrameDescriptionEntryTooShort
  | FrameDataDidntIncludePc
  | NoCommonInformationEntryFound uint32
  | UnsupportedDwarfVersion byte
  | UnhandledDwarfAugmentation
  | UnsuportedCFAOp byte
  | UnknownOpCode byte
  | InvalidLocationList
  | UnsupportedLocationOP
  | NilByteOrderPanic

datatype ByteOrder = LittleEndian | BigEndian

section \<open>The byte reader\<close>

text \<open>
  A \<open>bytes.Reader\<close> is modelled by the bytes it has not read yet. \<open>ReadByte\<close> fails
  with \<open>io.EOF\<close> at the end. \<open>Seek(k, 1)\<close> with \<open>k \<ge> 0\<close> is \<open>drop k\<close>: the reader
  may be moved past the end, after which every read fails with \<open>io.EOF\<close>.
\<close>

fun ReadByte :: "byte list \<Rightarrow> error + (byte \<times> byte list)" where
  "ReadByte [] = Inl EOF"
| "ReadByte (b # bs) = Inr (b, bs)"

text \<open>
  \<open>Reader.Read(buf)\<close> for a buffer of \<open>n\<close> zero bytes (\<open>make([]byte, n)\<close>): at the end
  of the input it fails with \<open>io.EOF\<close>, whatever \<open>n\<close> is; otherwise it copies what is
  there and reports no error, so a short read leaves the tail of the buffer zero.
\<close>

definition Read :: "nat \<Rightarrow> byte list \<Rightarrow> error + (byte list \<times> byte list)" where
  "Read n s = (if s = [] then Inl EOF
               else Inr (take n s @ replicate (n - length s) 0, drop n s))"

text \<open>
  \<open>binary.Read\<close> into a fixed-size integer reads exactly \<open>n\<close> bytes with
  \<open>io.ReadFull\<close>: \<open>io.EOF\<close> when there is no byte at all, \<open>io.ErrUnexpectedEOF\<close>
  when there are fewer than \<open>n\<close>.
\<close>

definition ReadFull :: "nat \<Rightarrow> byte list \<Rightarrow> error + (byte list \<times> byte list)" where
  "ReadFull n s = (if s = [] then Inl EOF
                   else if length s < n then Inl ErrUnexpectedEOF
                   else Inr (take n s, drop n s))"

fun le_word :: "byte list \<Rightarrow> 'a::len word" where
  "le_word [] = 0"
| "le_word (b # bs) = ucast b OR push_bit 8 (le_word bs)"

definition decode_word :: "ByteOrder \<Rightarrow> byte list \<Rightarrow> 'a::len word" where
  "decode_word ord bs = (case ord of LittleEndian \<Rightarrow> le_word bs | BigEndian \<Rightarrow> le_word (rev bs))"

definition binary_Read_uint32 :: "ByteOrder \<Rightarrow> byte list \<Rightarrow> error + (uint32 \<times> byte list)" where
  "binary_Read_uint32 ord s =
     (case ReadFull 4 s of Inl e \<Rightarrow> Inl e | Inr (bs, s') \<Rightarrow> Inr (decode_word ord bs, s'))"

definition binary_Read_uint64 :: "ByteOrder \<Rightarrow> byte list \<Rightarrow> error + (uint64 \<times> byte list)" where
  "binary_Read_uint64 ord s =
     (case ReadFull 8 s of Inl e \<Rightarrow> Inl e | Inr (bs, s') \<Rightarrow> Inr (decode_word ord bs, s'))"

section \<open>LEB128 (\<open>loclist.go\<close>)\<close>

definition dw_LEB_EXTENSION :: byte where
  "dw_LEB_EXTENSION = 0x80"

definition dw_LEB_BITS :: byte where
  "dw_LEB_BITS = 0xff XOR dw_LEB_EXTENSION"

text \<open>
  The loop that \<open>parseSignedLEB128\<close> and \<open>parseUnsignedLEB128\<close> both contain, word
  for word: \<open>n = uint64(b&dw_LEB_BITS)<<shift | n; shift += 7\<close>, until a byte without
  the extension bit. It returns \<open>n\<close>, \<open>shift\<close> and the rest of the input. Go's \<open><<\<close> on
  \<open>uint64\<close> gives 0 for a count of 64 or more, as \<open>push_bit\<close> does. \<open>shift\<close> is a Go
  \<open>uint\<close>; it is a \<open>nat\<close> here, since it grows by 7 for each byte and a slice has fewer
  than \<open>2 ^ 63\<close> bytes.
\<close>

fun leb128_loop :: "uint64 \<Rightarrow> nat \<Rightarrow> byte list \<Rightarrow> error + (uint64 \<times> nat \<times> byte list)" where
  "leb128_loop n shift [] = Inl EOF"
| "leb128_loop n shift (b # bs) =
     (let n' = push_bit shift (ucast (b AND dw_LEB_BITS)) OR n;
          shift' = shift + 7
      in if b AND dw_LEB_EXTENSION = 0 then Inr (n', shift', bs)
         else leb128_loop n' shift' bs)"

definition parseUnsignedLEB128 :: "byte list \<Rightarrow> error + (uint64 \<times> byte list)" where
  "parseUnsignedLEB128 stream =
     (case leb128_loop 0 0 stream of
        Inl e \<Rightarrow> Inl e
      | Inr (n, shift, rest) \<Rightarrow> Inr (n, rest))"

text \<open>
  \<open>1<<(shift-1)\<close> is a \<open>uint64\<close> and \<open>int64(1<<shift)\<close> an \<open>int64\<close>; both are 0
  when the count is 64 or more, and the subtraction wraps.
\<close>

definition parseSignedLEB128 :: "byte list \<Rightarrow> error + (int64 \<times> byte list)" where
  "parseSignedLEB128 stream =
     (case leb128_loop 0 0 stream of
        Inl e \<Rightarrow> Inl e
      | Inr (n, shift, rest) \<Rightarrow>
          if n AND push_bit (shift - 1) 1 \<noteq> 0 then Inr (n - push_bit shift 1, rest)
          else Inr (n, rest))"

lemma leb128_loop_length:
  "leb128_loop n shift bs = Inr (n', shift', rest) \<Longrightarrow> length rest < length bs"
proof (induction bs arbitrary: n shift)
  case Nil
  then show ?case by simp
next
  case (Cons b bs)
  show ?case
  proof (cases "b AND dw_LEB_EXTENSION = 0")
    case True
    with Cons.prems show ?thesis by (simp add: Let_def)
  next
    case False
    with Cons.prems have "length rest < length bs"
      by (intro Cons.IH) (simp add: Let_def)
    then show ?thesis by simp
  qed
qed

lemma parseUnsignedLEB128_length:
  "parseUnsignedLEB128 bs = Inr (n, rest) \<Longrightarrow> length rest < length bs"
  by (auto simp: parseUnsignedLEB128_def split: sum.splits dest: leb128_loop_length)

lemma parseSignedLEB128_length:
  "parseSignedLEB128 bs = Inr (n, rest) \<Longrightarrow> length rest < length bs"
  by (auto simp: parseSignedLEB128_def split: sum.splits if_splits dest: leb128_loop_length)

section \<open>Location expressions (\<open>loclist.go\<close>)\<close>

definition dw_OP_consts :: byte where
  "dw_OP_consts = 0x11"

definition dw_OP_plus :: byte where
  "dw_OP_plus = 0x22"

definition dw_OP_call_frame_cfa :: byte where
  "dw_OP_call_frame_cfa = 0x9c"

record locInfo =
  CanonicalFrameAddress :: uintptr

text \<open>
  The loop of \<open>parseLocList\<close> with the check that follows it: the state is the stack (a
  slice that grows at its end) and the bytes not read yet. \<open>int64(info.CanonicalFrameAddress)\<close>
  and \<open>uintptr(stack[0])\<close> keep the 64 bits as they are.
\<close>

function (sequential) parseLocList_loop :: "locInfo \<Rightarrow> int64 list \<Rightarrow> byte list \<Rightarrow> error + uintptr" where
  "parseLocList_loop info stack [] =
     (if length stack = 1 then Inr (stack ! 0) else Inl InvalidLocationList)"
| "parseLocList_loop info stack (instruction # stream) =
     (if instruction = dw_OP_consts then
        (case parseSignedLEB128 stream of
           Inl err \<Rightarrow> Inl err
         | Inr (n, stream') \<Rightarrow> parseLocList_loop info (stack @ [n]) stream')
      else if instruction = dw_OP_plus then
        (if length stack < 2 then Inl InvalidLocationList
         else
           (let a = stack ! (length stack - 1);
                b = stack ! (length stack - 2)
            in parseLocList_loop info (take (length stack - 2) stack @ [a + b]) stream))
      else if instruction = dw_OP_call_frame_cfa then
        parseLocList_loop info (stack @ [CanonicalFrameAddress info]) stream
      else Inl UnsupportedLocationOP)"
  by pat_completeness auto
termination
  by (relation "measure (\<lambda>(info, stack, stream). length stream)")
     (auto dest: parseSignedLEB128_length)

definition parseLocList :: "byte list \<Rightarrow> locInfo \<Rightarrow> error + uintptr" where
  "parseLocList locList info = parseLocList_loop info [] locList"

text \<open>
  The states that the loop of \<open>parseLocList\<close> passes through: from a state (stack, bytes
  not read yet) one iteration that does not return leads to the next state, by the three
  cases of the \<open>switch\<close>. \<open>parseLocList_reaches info s s'\<close> holds when the loop started
  in \<open>s\<close> comes to the top of the loop in \<open>s'\<close>.
\<close>

inductive parseLocList_reaches ::
  "locInfo \<Rightarrow> int64 list \<times> byte list \<Rightarrow> int64 list \<times> byte list \<Rightarrow> bool"
  for info :: locInfo where
  reaches_here: "parseLocList_reaches info s s"
| reaches_consts: "parseSignedLEB128 stream = Inr (n, stream') \<Longrightarrow>
     parseLocList_reaches info (stack @ [n], stream') s \<Longrightarrow>
     parseLocList_reaches info (stack, dw_OP_consts # stream) s"
| reaches_plus: "\<not> length stack < 2 \<Longrightarrow>
     parseLocList_reaches info
       (take (length stack - 2) stack @ [stack ! (length stack - 1) + stack ! (length stack - 2)], stream) s \<Longrightarrow>
     parseLocList_reaches info (stack, dw_OP_plus # stream) s"
| reaches_cfa: "parseLocList_reaches info (stack @ [CanonicalFrameAddress info], stream) s \<Longrightarrow>
     parseLocList_reaches info (stack, dw_OP_call_frame_cfa # stream) s"

code_pred parseLocList_reaches .

section \<open>Call frame information (\<open>unwind.go\<close>)\<close>

definition dw_CFA_nop :: byte where
  "dw_CFA_nop = 0x00"

definition dw_CFA_advance_loc1 :: byte where
  "dw_CFA_advance_loc1 = 0x02"

definition dw_CFA_advance_loc2 :: byte where
  "dw_CFA_advance_loc2 = 0x03"

definition dw_CFA_def_cfa :: byte where
  "dw_CFA_def_cfa = 0x0c"

definition dw_CFA_def_cfa_offset_sf :: byte where
  "dw_CFA_def_cfa_offset_sf = 0x13"

definition dw_CFA_advance_loc :: byte where
  "dw_CFA_advance_loc = push_bit 6 0x1"

definition dw_CFA_offset :: byte where
  "dw_CFA_offset = push_bit 6 0x2"

lemmas dw_CFA_defs =
  dw_CFA_nop_def dw_CFA_advance_loc1_def dw_CFA_advance_loc2_def dw_CFA_def_cfa_def
  dw_CFA_def_cfa_offset_sf_def dw_CFA_advance_loc_def dw_CFA_offset_def

text \<open>
  \<open>Data\<close> is declared in a file of the package that is not among the sources; the two
  fields that \<open>unwind.go\<close> reads are the \<open>__debug_frame\<close> section and the byte order.
\<close>

record Data =
  frame :: "byte list"
  order :: ByteOrder

text \<open>
  The field \<open>order\<close> of a \<open>CommonInformationEntry\<close> is \<open>cie_order\<close> here; it is an
  interface value, \<open>nil\<close> (\<open>None\<close>) until \<open>Data.CanonicalFrameAddress\<close> sets it.
\<close>

record CommonInformationEntry =
  CodeAlignmentFactor :: uintptr
  DataAlignmentFactor :: int64
  ReturnColumn :: byte
  InitialLocation :: uintptr
  AddressRange :: uintptr
  Instructions :: "byte list"
  StackRegister :: uint64
  StackOffset :: int64
  ColumnValue :: int64
  cie_order :: "ByteOrder option"

text \<open>
  \<open>Update\<close> changes the entry through its pointer and leaves its loop only by
  returning an error, so the model returns the error together with the entry as it
  stands then. The \<open>switch\<close> tries its cases in the order written; the third case
  value is computed in \<open>byte\<close> arithmetic.
\<close>

function (sequential) Update :: "CommonInformationEntry \<Rightarrow> byte list \<Rightarrow> error \<times> CommonInformationEntry" where
  "Update cie [] = (EOF, cie)"
| "Update cie (instruction # stream) =
     (if instruction = dw_CFA_def_cfa then
        (case parseUnsignedLEB128 stream of
           Inl err \<Rightarrow> (err, cie)
         | Inr (reg, stream') \<Rightarrow>
             (case parseUnsignedLEB128 stream' of
                Inl err \<Rightarrow> (err, cie)
              | Inr (val, stream'') \<Rightarrow>
                  Update (cie\<lparr>StackRegister := reg, StackOffset := val\<rparr>) stream''))
      else if instruction = dw_CFA_nop then Update cie stream
      else if instruction = dw_CFA_offset + ReturnColumn cie then
        (case parseSignedLEB128 stream of
           Inl err \<Rightarrow> (err, cie)
         | Inr (raw, stream') \<Rightarrow>
             Update (cie\<lparr>ColumnValue := raw * DataAlignmentFactor cie\<rparr>) stream')
      else (UnsuportedCFAOp instruction, cie))"
  by pat_completeness auto
termination
  by (relation "measure (\<lambda>(cie, stream). length stream)")
     (auto dest!: parseUnsignedLEB128_length parseSignedLEB128_length)

text \<open>
  \<open>parseCommonInformationEntry\<close>: a new reader on \<open>d.frame\<close> moved to offset \<open>id\<close>, the
  length, then \<open>length\<close> bytes read into a buffer of their own, on which the rest works.
  The variables \<open>id\<close> and \<open>length\<close> of the source are \<open>ident\<close> and \<open>len\<close>.
\<close>

definition parseCommonInformationEntry :: "Data \<Rightarrow> uint32 \<Rightarrow> error + CommonInformationEntry" where
  "parseCommonInformationEntry d ident =
     (case binary_Read_uint32 (order d) (drop (unat ident) (frame d)) of
        Inl err \<Rightarrow> Inl err
      | Inr (len, s1) \<Rightarrow>
     (case Read (unat len) s1 of
        Inl err \<Rightarrow> Inl err
      | Inr (entry, s2) \<Rightarrow>
     (case binary_Read_uint32 (order d) entry of
        Inl err \<Rightarrow> Inl err
      | Inr (mark, s3) \<Rightarrow>
     if len < 4 \<or> mark \<noteq> 0xFFFFFFFF then Inl (NoCommonInformationEntryFound ident)
     else
     (case ReadByte s3 of
        Inl err \<Rightarrow> Inl err
      | Inr (version, s4) \<Rightarrow>
     if version \<noteq> 3 then Inl (UnsupportedDwarfVersion version)
     else
     (case ReadByte s4 of
        Inl err \<Rightarrow> Inl err
      | Inr (augmentation, s5) \<Rightarrow>
     if augmentation \<noteq> 0 then Inl UnhandledDwarfAugmentation
     else
     (case parseUnsignedLEB128 s5 of
        Inl err \<Rightarrow> Inl err
      | Inr (codeAlignment, s6) \<Rightarrow>
     (case parseSignedLEB128 s6 of
        Inl err \<Rightarrow> Inl err
      | Inr (dataAlignment, s7) \<Rightarrow>
     (case ReadByte s7 of
        Inl err \<Rightarrow> Inl err
      | Inr (returnColumn, s8) \<Rightarrow>
     (let cie = \<lparr>CodeAlignmentFactor = codeAlignment,
                 DataAlignmentFactor = dataAlignment,
                 ReturnColumn = returnColumn,
                 InitialLocation = 0, AddressRange = 0, Instructions = [],
                 StackRegister = 0, StackOffset = 0, ColumnValue = 0,
                 cie_order = None\<rparr>
      in case Update cie s8 of
           (err, cie') \<Rightarrow> if err = EOF then Inr cie' else Inl err)))))))))"

text \<open>
  \<open>binary.Read\<close> into an \<open>int16\<close> decodes with the byte order, which panics on a
  \<open>nil\<close> order once the two bytes are read; into an \<open>int8\<close> it takes the byte as it
  is and never asks the order.
\<close>

definition cie_Read_int8 :: "ByteOrder option \<Rightarrow> byte list \<Rightarrow> error + (8 word \<times> byte list)" where
  "cie_Read_int8 ord s =
     (case ReadFull 1 s of Inl e \<Rightarrow> Inl e | Inr (bs, s') \<Rightarrow> Inr (le_word bs, s'))"

definition cie_Read_int16 :: "ByteOrder option \<Rightarrow> byte list \<Rightarrow> error + (16 word \<times> byte list)" where
  "cie_Read_int16 ord s =
     (case ReadFull 2 s of
        Inl e \<Rightarrow> Inl e
      | Inr (bs, s') \<Rightarrow>
          (case ord of None \<Rightarrow> Inl NilByteOrderPanic | Some ord' \<Rightarrow> Inr (decode_word ord' bs, s')))"

lemma ReadFull_length:
  "ReadFull k s = Inr (bs, s') \<Longrightarrow> 0 < k \<Longrightarrow> length s' < length s"
  by (auto simp: ReadFull_def split: if_splits)

lemma cie_Read_int8_length:
  "cie_Read_int8 ord s = Inr (v, s') \<Longrightarrow> length s' < length s"
  by (auto simp: cie_Read_int8_def split: sum.splits dest: ReadFull_length)

lemma cie_Read_int16_length:
  "cie_Read_int16 ord s = Inr (v, s') \<Longrightarrow> length s' < length s"
  by (auto simp: cie_Read_int16_def split: sum.splits option.splits dest: ReadFull_length)

text \<open>
  The loop of \<open>CommonInformationEntry.CanonicalFrameAddress\<close> with the \<open>return\<close> that
  follows it; its state is \<open>loc\<close>, \<open>offset\<close> and the bytes not read yet. Both \<open>break\<close>s
  reach \<open>return uintptr(int64(sp) + offset), nil\<close>. \<open>uintptr(delta)\<close> sign-extends an
  \<open>int8\<close> or \<open>int16\<close> (\<open>scast\<close>) and \<open>uintptr(instruction - 0x40)\<close> zero-extends a byte
  (\<open>ucast\<close>). The calls of \<open>fmt.Println\<close> are left out.
\<close>

function (sequential) CanonicalFrameAddress_loop ::
  "CommonInformationEntry \<Rightarrow> uintptr \<Rightarrow> uintptr \<Rightarrow> uintptr \<Rightarrow> int64 \<Rightarrow> byte list \<Rightarrow> error + uintptr" where
  "CanonicalFrameAddress_loop cie pc sp loc offset [] = Inr (sp + offset)"
| "CanonicalFrameAddress_loop cie pc sp loc offset (instruction # stream) =
     (if instruction = dw_CFA_def_cfa_offset_sf then
        (case parseSignedLEB128 stream of
           Inl err \<Rightarrow> Inl err
         | Inr (delta, stream') \<Rightarrow>
             CanonicalFrameAddress_loop cie pc sp loc (delta * DataAlignmentFactor cie) stream')
      else if pc < loc then Inr (sp + offset)
      else if instruction = dw_CFA_advance_loc1 then
        (case cie_Read_int8 (cie_order cie) stream of
           Inl err \<Rightarrow> Inl err
         | Inr (delta, stream') \<Rightarrow>
             CanonicalFrameAddress_loop cie pc sp
               (loc + scast delta * CodeAlignmentFactor cie) offset stream')
      else if instruction = dw_CFA_advance_loc2 then
        (case cie_Read_int16 (cie_order cie) stream of
           Inl err \<Rightarrow> Inl err
         | Inr (delta, stream') \<Rightarrow>
             CanonicalFrameAddress_loop cie pc sp
               (loc + scast delta * CodeAlignmentFactor cie) offset stream')
      else if dw_CFA_advance_loc \<le> instruction \<and> instruction \<le> 0x80 then
        CanonicalFrameAddress_loop cie pc sp
          (loc + ucast (instruction - 0x40) * CodeAlignmentFactor cie) offset stream
      else Inl (UnknownOpCode instruction))"
  by pat_completeness auto
termination
  by (relation "measure (\<lambda>(cie, pc, sp, loc, offset, stream). length stream)")
     (auto dest!: parseSignedLEB128_length cie_Read_int8_length cie_Read_int16_length)

definition CIE_CanonicalFrameAddress :: "CommonInformationEntry \<Rightarrow> uintptr \<Rightarrow> uintptr \<Rightarrow> error + uintptr" where
  "CIE_CanonicalFrameAddress cie pc sp =
     CanonicalFrameAddress_loop cie pc sp (InitialLocation cie) (StackOffset cie) (Instructions cie)"

text \<open>
  The loop of \<open>Data.CanonicalFrameAddress\<close> over the records of \<open>d.frame\<close>; its state is
  the reader. The loop has no \<open>break\<close> and no condition, so it is left only by a
  \<open>return\<close> inside it: the statement after it, which returns the error
  \<open>FrameDataDidntIncludePc\<close>, is never reached. \<open>Seek\<close> moves forward by
  \<open>length - 4\<close> or \<open>length - 20\<close>, neither negative where it is called.
\<close>

function Data_CanonicalFrameAddress_loop :: "Data \<Rightarrow> uintptr \<Rightarrow> uintptr \<Rightarrow> byte list \<Rightarrow> error + uintptr" where
  "Data_CanonicalFrameAddress_loop d pc sp stream =
     (case binary_Read_uint32 (order d) stream of
        Inl err \<Rightarrow> Inl err
      | Inr (len, s1) \<Rightarrow>
     if len < 4 then Inl EntryTooShort
     else
     (case binary_Read_uint32 (order d) s1 of
        Inl err \<Rightarrow> Inl err
      | Inr (ident, s2) \<Rightarrow>
     if ident = 0xFFFFFFFF then Data_CanonicalFrameAddress_loop d pc sp (drop (unat len - 4) s2)
     else if len < 20 then Inl FrameDescriptionEntryTooShort
     else
     (case binary_Read_uint64 (order d) s2 of
        Inl err \<Rightarrow> Inl err
      | Inr (pcstart, s3) \<Rightarrow>
     (case binary_Read_uint64 (order d) s3 of
        Inl err \<Rightarrow> Inl err
      | Inr (pccount, s4) \<Rightarrow>
     if pcstart \<le> pc \<and> pc < pcstart + pccount then
       (case parseCommonInformationEntry d ident of
          Inl err \<Rightarrow> Inl err
        | Inr cie \<Rightarrow>
            (case Read (unat (len - 20)) s4 of
               Inl err \<Rightarrow> Inl err
             | Inr (instructions, s5) \<Rightarrow>
                 CIE_CanonicalFrameAddress
                   (cie\<lparr>InitialLocation := pcstart, AddressRange := pccount,
                        Instructions := instructions, cie_order := Some (order d)\<rparr>) pc sp))
     else Data_CanonicalFrameAddress_loop d pc sp (drop (unat len - 20) s4)))))"
  by pat_completeness auto
termination
proof (relation "measure (\<lambda>(d, pc, sp, stream). length stream)")
  show "wf (measure (\<lambda>(d, pc, sp, stream). length stream))" by simp
next
  fix d :: Data and pc sp :: uintptr and stream x2 len s1 x2a ident s2
  assume "binary_Read_uint32 (order d) stream = Inr x2" "(len, s1) = x2"
    "binary_Read_uint32 (order d) s1 = Inr x2a" "(ident, s2) = x2a"
  then have "length s1 < length stream" "length s2 < length s1"
    by (auto simp: binary_Read_uint32_def split: sum.splits dest: ReadFull_length)
  then show "((d, pc, sp, drop (unat len - 4) s2), d, pc, sp, stream)
      \<in> measure (\<lambda>(d, pc, sp, stream). length stream)"
    by simp
next
  fix d :: Data and pc sp :: uintptr and stream x2 len s1 x2a ident s2 x2b pcstart s3 x2c pccount s4
  assume "binary_Read_uint32 (order d) stream = Inr x2" "(len, s1) = x2"
    "binary_Read_uint32 (order d) s1 = Inr x2a" "(ident, s2) = x2a"
    "binary_Read_uint64 (order d) s2 = Inr x2b" "(pcstart, s3) = x2b"
    "binary_Read_uint64 (order d) s3 = Inr x2c" "(pccount, s4) = x2c"
  then have "length s1 < length stream" "length s2 < length s1"
    "length s3 < length s2" "length s4 < length s3"
    by (auto simp: binary_Read_uint32_def binary_Read_uint64_def split: sum.splits
        dest: ReadFull_length)
  then show "((d, pc, sp, drop (unat len - 20) s4), d, pc, sp, stream)
      \<in> measure (\<lambda>(d, pc, sp, stream). length stream)"
    by simp
qed

declare Data_CanonicalFrameAddress_loop.simps [simp del]

definition Data_CanonicalFrameAddress :: "Data \<Rightarrow> uintptr \<Rightarrow> uintptr \<Rightarrow> error + uintptr" where
  "Data_CanonicalFrameAddress d pc sp = Data_CanonicalFrameAddress_loop d pc sp (frame d)"

section \<open>Reference notions for the LEB128 claims\<close>

text \<open>
  The value that a sequence of LEB128 bytes denotes: the 7-bit groups, least significant
  first, each weighted by \<open>128\<close> to the power of its position.
\<close>

fun groups_value :: "byte list \<Rightarrow> nat" where
  "groups_value [] = 0"
| "groups_value (b # bs) = unat (b AND dw_LEB_BITS) + 128 * groups_value bs"

text \<open>
  The signed LEB128 encoder is not part of the package. This is the encoding algorithm
  of the DWARF standard on an integer of any size: emit the low seven bits, shift
  right arithmetically by seven, and stop once the rest is all sign (0 with bit 6 of the
  byte clear, or -1 with bit 6 set); every byte but the last carries the extension bit.
\<close>

definition low7 :: "int \<Rightarrow> byte" where
  "low7 v = word_of_int v AND 0x7f"

function sleb128_encode :: "int \<Rightarrow> byte list" where
  "sleb128_encode v =
     (let b = low7 v; v' = v div 128
      in if (v' = 0 \<and> b AND 0x40 = 0) \<or> (v' = - 1 \<and> b AND 0x40 \<noteq> 0) then [b]
         else (b OR 0x80) # sleb128_encode v')"
  by pat_completeness auto
termination
proof (relation "measure (\<lambda>v. nat \<bar>v\<bar>)")
  show "wf (measure (\<lambda>v. nat \<bar>v\<bar>))" by simp
next
  fix v :: int and b :: byte and v'
  assume b: "b = low7 v" and v': "v' = v div 128"
    and c: "\<not> (v' = 0 \<and> b AND 0x40 = 0 \<or> v' = - 1 \<and> b AND 0x40 \<noteq> 0)"
  have "v \<noteq> 0"
  proof
    assume "v = 0"
    with b v' c show False by (simp add: low7_def)
  qed
  moreover have "v \<noteq> - 1"
  proof
    assume "v = - 1"
    with b v' c show False by (simp add: low7_def)
  qed
  ultimately have "\<bar>v div 128\<bar> < \<bar>v\<bar>" by linarith
  then show "(v', v) \<in> measure (\<lambda>v. nat \<bar>v\<bar>)" using v' by simp
qed

section \<open>LEB128 decoding: proofs\<close>

lemma dw_LEB_BITS_mask: "dw_LEB_BITS = mask 7"
  by (simp add: dw_LEB_BITS_def dw_LEB_EXTENSION_def mask_eq_exp_minus_1)

lemma bit_dw_LEB_BITS: "bit dw_LEB_BITS i \<longleftrightarrow> i < 7"
  by (auto simp add: dw_LEB_BITS_mask bit_simps)

lemma bit_group_iff: "bit (b AND dw_LEB_BITS) i \<longleftrightarrow> i < 7 \<and> bit b i"
  by (auto simp add: bit_dw_LEB_BITS bit_simps)

lemma group_add_or:
  "(ucast (b AND dw_LEB_BITS) :: uint64) + push_bit 7 w = ucast (b AND dw_LEB_BITS) OR push_bit 7 w"
  by (rule disjunctive_add) (auto simp add: bit_simps bit_dw_LEB_BITS)

lemma of_nat_group:
  "(word_of_nat (unat (b AND dw_LEB_BITS) + 128 * x) :: uint64) = ucast (b AND dw_LEB_BITS) OR push_bit 7 (word_of_nat x)"
proof -
  have "(word_of_nat (unat (b AND dw_LEB_BITS) + 128 * x) :: uint64)
      = ucast (b AND dw_LEB_BITS) + push_bit 7 (word_of_nat x)"
    by (simp add: push_bit_eq_mult)
  then show ?thesis by (simp only: group_add_or)
qed

lemma leb128_loop_groups:
  "\<forall>b \<in> set pre. b AND dw_LEB_EXTENSION \<noteq> 0 \<Longrightarrow> l AND dw_LEB_EXTENSION = 0 \<Longrightarrow>
   leb128_loop n s (pre @ l # rest) =
     Inr (n OR push_bit s (word_of_nat (groups_value (pre @ [l]))), s + 7 * (length pre + 1), rest)"
proof (induction pre arbitrary: n s)
  case Nil
  then show ?case by (simp add: or.commute)
next
  case (Cons b pre)
  then show ?case
    by (simp add: of_nat_group or.assoc or.left_commute or.commute Let_def del: of_nat_add of_nat_mult)
qed

lemma groups_value_sum:
  "groups_value bs = (\<Sum>i<length bs. unat (bs ! i AND dw_LEB_BITS) * 2 ^ (7 * i))"
proof (induction bs)
  case Nil
  then show ?case by simp
next
  case (Cons b bs)
  have "(\<Sum>i<length (b # bs). unat ((b # bs) ! i AND dw_LEB_BITS) * 2 ^ (7 * i))
      = unat (b AND dw_LEB_BITS) + (\<Sum>i<length bs. unat (bs ! i AND dw_LEB_BITS) * 2 ^ (7 * Suc i))"
    unfolding length_Cons by (subst sum.lessThan_Suc_shift) simp
  also have "(\<Sum>i<length bs. unat (bs ! i AND dw_LEB_BITS) * 2 ^ (7 * Suc i))
      = 128 * (\<Sum>i<length bs. unat (bs ! i AND dw_LEB_BITS) * 2 ^ (7 * i))"
    by (simp add: sum_distrib_left power_add mult.commute mult.left_commute)
  finally show ?case using Cons.IH by simp
qed

lemma high_groups_vanish:
  "(word_of_nat (\<Sum>i<k. f i * 2 ^ (7 * i)) :: uint64) =
   word_of_nat (\<Sum>i\<in>{i. i < k \<and> 7 * i < 64}. f i * 2 ^ (7 * i))"
proof -
  have z: "(word_of_nat (f i * 2 ^ (7 * i)) :: uint64) = 0" if "\<not> 7 * i < 64" for i
  proof -
    have "(2 :: uint64) ^ (7 * i) = 0" using that by (simp only: exp_eq_zero_iff) simp
    then show ?thesis by (simp only: of_nat_mult of_nat_power of_nat_numeral mult_zero_right)
  qed
  have "(\<Sum>i\<in>{..<k}. (word_of_nat (f i * 2 ^ (7 * i)) :: uint64)) =
        (\<Sum>i\<in>{i. i < k \<and> 7 * i < 64}. word_of_nat (f i * 2 ^ (7 * i)))"
  proof (rule sum.mono_neutral_right)
    show "finite {..<k}" by simp
    show "{i. i < k \<and> 7 * i < 64} \<subseteq> {..<k}" by auto
    show "\<forall>i\<in>{..<k} - {i. i < k \<and> 7 * i < 64}. (word_of_nat (f i * 2 ^ (7 * i)) :: uint64) = 0"
    proof (intro ballI)
      fix i
      assume "i \<in> {..<k} - {i. i < k \<and> 7 * i < 64}"
      then have "\<not> 7 * i < 64" by auto
      then show "(word_of_nat (f i * 2 ^ (7 * i)) :: uint64) = 0" by (rule z)
    qed
  qed
  then show ?thesis by (simp only: of_nat_sum)
qed

text \<open>
  Claim C10. On input whose unsigned LEB128 number terminates (bytes \<open>pre\<close> with the
  extension bit, then a byte \<open>l\<close> without it), \<open>parseUnsignedLEB128\<close> returns a
  value and the rest of the input, never an error. The value is the sum of all groups
  read, group \<open>i\<close> times \<open>2 ^ (7 * i)\<close>, reduced modulo \<open>2 ^ 64\<close>; it is also what the
  groups at a shift below 64 alone give, so the groups at shift 64 or more add nothing.
\<close>

theorem C10_parseUnsignedLEB128_terminated:
  assumes "\<forall>b\<in>set pre. b AND dw_LEB_EXTENSION \<noteq> 0" and "l AND dw_LEB_EXTENSION = 0"
  shows "let bs = pre @ [l];
             total = (\<Sum>i<length bs. unat (bs ! i AND dw_LEB_BITS) * 2 ^ (7 * i));
             low = (\<Sum>i\<in>{i. i < length bs \<and> 7 * i < 64}. unat (bs ! i AND dw_LEB_BITS) * 2 ^ (7 * i))
         in parseUnsignedLEB128 (pre @ l # rest) = Inr (word_of_nat total, rest) \<and>
            unat (word_of_nat total :: uint64) = total mod 2 ^ 64 \<and>
            (word_of_nat total :: uint64) = word_of_nat low"
proof -
  define bs where "bs = pre @ [l]"
  define total where "total = (\<Sum>i<length bs. unat (bs ! i AND dw_LEB_BITS) * 2 ^ (7 * i))"
  define low where
    "low = (\<Sum>i\<in>{i. i < length bs \<and> 7 * i < 64}. unat (bs ! i AND dw_LEB_BITS) * 2 ^ (7 * i))"
  have "leb128_loop 0 0 (pre @ l # rest) =
      Inr (0 OR push_bit 0 (word_of_nat (groups_value (pre @ [l]))), 0 + 7 * (length pre + 1), rest)"
    using assms by (rule leb128_loop_groups)
  then have 1: "parseUnsignedLEB128 (pre @ l # rest) = Inr (word_of_nat total, rest)"
    by (simp add: parseUnsignedLEB128_def groups_value_sum total_def bs_def del: of_nat_sum of_nat_add of_nat_mult)
  have 2: "unat (word_of_nat total :: uint64) = total mod 2 ^ 64"
    by (simp add: unat_of_nat)
  have 3: "(word_of_nat total :: uint64) = word_of_nat low"
    unfolding total_def low_def by (rule high_groups_vanish)
  from 1 2 3 show ?thesis
    unfolding Let_def bs_def [symmetric] total_def [symmetric] low_def [symmetric] by blast
qed

lemma parseUnsignedLEB128_example:
  "parseUnsignedLEB128 [0xE5, 0x8E, 0x26, 0x01] = Inr (624485, [0x01])"
  by (simp add: parseUnsignedLEB128_def dw_LEB_BITS_def dw_LEB_EXTENSION_def)

theorem C10_overlong_witness:
  "parseUnsignedLEB128 [0x81, 0x80, 0x80, 0x80, 0x80, 0x80, 0x80, 0x80, 0x80, 0x83, 0x7f] =
     Inr (0x8000000000000001, [])"
proof -
  have h1: "\<forall>b\<in>set [0x81, 0x80, 0x80, 0x80, 0x80, 0x80, 0x80, 0x80, 0x80, 0x83 :: byte].
      b AND dw_LEB_EXTENSION \<noteq> 0"
    by (simp add: dw_LEB_EXTENSION_def)
  have h2: "(0x7f :: byte) AND dw_LEB_EXTENSION = 0"
    by (simp add: dw_LEB_EXTENSION_def)
  show ?thesis
    using C10_parseUnsignedLEB128_terminated [OF h1 h2, of "[]"]
    by (simp add: Let_def lessThan_Suc dw_LEB_BITS_def dw_LEB_EXTENSION_def)
qed

declare sleb128_encode.simps [simp del]

lemma bit_127_int: "bit (127 :: int) i \<longleftrightarrow> i < 7"
proof -
  have "(127 :: int) = mask 7" by (simp add: mask_eq_exp_minus_1)
  then show ?thesis by (simp only: bit_mask_iff) auto
qed

lemma bit_128_int: "bit (128 :: int) i \<longleftrightarrow> i = 7"
proof -
  have "(128 :: int) = 2 ^ 7" by simp
  then show ?thesis by (simp only: bit_exp_iff) auto
qed

lemma bit_64_int: "bit (64 :: int) i \<longleftrightarrow> i = 6"
proof -
  have "(64 :: int) = 2 ^ 6" by simp
  then show ?thesis by (simp only: bit_exp_iff) auto
qed

lemmas bit_consts = bit_127_int bit_128_int bit_64_int

lemma bit_low7: "bit (low7 v) i \<longleftrightarrow> i < 7 \<and> bit v i"
  by (auto simp add: low7_def bit_simps bit_consts)

lemma low7_ext: "(low7 v OR 0x80) AND dw_LEB_EXTENSION \<noteq> 0"
proof -
  have "bit ((low7 v OR 0x80) AND dw_LEB_EXTENSION) 7"
    by (simp add: bit_simps bit_consts dw_LEB_EXTENSION_def)
  then show ?thesis by auto
qed

lemma low7_no_ext: "low7 v AND dw_LEB_EXTENSION = 0"
  by (rule bit_eqI) (simp add: bit_simps bit_consts bit_low7 dw_LEB_EXTENSION_def)

lemma low7_ext_bits: "(low7 v OR 0x80) AND dw_LEB_BITS = low7 v"
  by (rule bit_eqI) (auto simp add: bit_simps bit_consts bit_low7 bit_dw_LEB_BITS)

lemma low7_bits: "low7 v AND dw_LEB_BITS = low7 v"
  by (rule bit_eqI) (auto simp add: bit_simps bit_low7 bit_dw_LEB_BITS)

lemma take_bit_group:
  "(word_of_int (take_bit (7 + m) v) :: uint64) =
     ucast (low7 v) OR push_bit 7 (word_of_int (take_bit m (v div 128)))"
proof (rule bit_eqI)
  fix i
  have d: "v div 128 = drop_bit 7 v" by (simp add: drop_bit_eq_div)
  show "bit (word_of_int (take_bit (7 + m) v) :: uint64) i \<longleftrightarrow>
        bit (ucast (low7 v) OR push_bit 7 (word_of_int (take_bit m (v div 128))) :: uint64) i"
    unfolding d by (auto simp add: bit_simps bit_low7)
qed

lemma low7_take_bit:
  "(ucast (low7 v) :: uint64) = word_of_int (take_bit 7 v)"
  by (rule bit_eqI) (auto simp add: bit_simps bit_low7)

lemma leb128_loop_encode:
  "leb128_loop n s (sleb128_encode v @ rest) =
     Inr (n OR push_bit s (word_of_int (take_bit (7 * length (sleb128_encode v)) v)),
          s + 7 * length (sleb128_encode v), rest)"
proof (induction v arbitrary: n s rule: sleb128_encode.induct)
  case (1 v)
  show ?case
  proof (cases "(v div 128 = 0 \<and> low7 v AND 0x40 = 0) \<or> (v div 128 = - 1 \<and> low7 v AND 0x40 \<noteq> 0)")
    case True
    then have e: "sleb128_encode v = [low7 v]"
      by (subst sleb128_encode.simps) (simp only: Let_def True if_True)
    show ?thesis
      by (simp add: e low7_no_ext low7_bits low7_take_bit or.commute)
  next
    case False
    then have e: "sleb128_encode v = (low7 v OR 0x80) # sleb128_encode (v div 128)"
      by (subst sleb128_encode.simps) (simp only: Let_def False if_False)
    have ih: "\<And>n s. leb128_loop n s (sleb128_encode (v div 128) @ rest) =
        Inr (n OR push_bit s (word_of_int (take_bit (7 * length (sleb128_encode (v div 128))) (v div 128))),
             s + 7 * length (sleb128_encode (v div 128)), rest)"
      using False by (intro "1.IH" [OF refl refl])
    have tb: "(word_of_int (take_bit (7 * length (sleb128_encode v)) v) :: uint64) =
       ucast (low7 v) OR push_bit 7 (word_of_int (take_bit (7 * length (sleb128_encode (v div 128))) (v div 128)))"
      using take_bit_group [of "7 * length (sleb128_encode (v div 128))" v] by (simp add: e)
    show ?thesis
      unfolding tb
      by (simp add: e low7_ext low7_ext_bits ih Let_def or.assoc or.left_commute or.commute)
  qed
qed

lemma low7_sign: "low7 v AND 0x40 = 0 \<longleftrightarrow> even (v div 64)"
proof -
  have "low7 v AND 0x40 = 0 \<longleftrightarrow> \<not> bit (low7 v) 6"
    using and_exp_eq_0_iff_not_bit [of "low7 v" 6] by simp
  also have "\<dots> \<longleftrightarrow> \<not> bit v 6"
    by (simp only: bit_low7) simp
  also have "\<dots> \<longleftrightarrow> even (v div 64)"
    by (simp add: bit_iff_odd)
  finally show ?thesis .
qed

lemma last_group_nonneg:
  fixes v :: int
  assumes "v div 128 = 0" "even (v div 64)"
  shows "- 64 \<le> v \<and> v < 64"
proof -
  have a: "0 \<le> v" "v < 128" using assms(1) by linarith+
  have "v div 64 = 0 \<or> v div 64 = 1" using a by linarith
  with assms(2) have "v div 64 = 0" by auto
  then show ?thesis using a by linarith
qed

lemma last_group_neg:
  fixes v :: int
  assumes "v div 128 = - 1" "odd (v div 64)"
  shows "- 64 \<le> v \<and> v < 64"
proof -
  have a: "- 128 \<le> v" "v < 0" using assms(1) by linarith+
  have "v div 64 = - 2 \<or> v div 64 = - 1" using a by linarith
  with assms(2) have "v div 64 = - 1" by auto
  then show ?thesis using a by linarith
qed

lemma sleb128_encode_range:
  "\<exists>m. length (sleb128_encode v) = Suc m \<and> - (64 * 128 ^ m) \<le> v \<and> v < 64 * 128 ^ m"
proof (induction v rule: sleb128_encode.induct)
  case (1 v)
  show ?case
  proof (cases "(v div 128 = 0 \<and> low7 v AND 0x40 = 0) \<or> (v div 128 = - 1 \<and> low7 v AND 0x40 \<noteq> 0)")
    case True
    then have e: "sleb128_encode v = [low7 v]"
      by (subst sleb128_encode.simps) (simp only: Let_def True if_True)
    from True have "- 64 \<le> v \<and> v < 64"
      unfolding low7_sign using last_group_nonneg [of v] last_group_neg [of v] by blast
    then show ?thesis by (simp add: e)
  next
    case False
    then have e: "sleb128_encode v = (low7 v OR 0x80) # sleb128_encode (v div 128)"
      by (subst sleb128_encode.simps) (simp only: Let_def False if_False)
    from False obtain m where m: "length (sleb128_encode (v div 128)) = Suc m"
      and lo: "- (64 * 128 ^ m) \<le> v div 128" and hi: "v div 128 < 64 * 128 ^ m"
      using "1.IH" [OF refl refl] by blast
    have "- (64 * 128 ^ Suc m) \<le> v" using lo by simp
    moreover have "v < 64 * 128 ^ Suc m" using hi by simp
    ultimately show ?thesis using m by (simp add: e)
  qed
qed

lemma bit_sign_nonneg:
  fixes v :: int
  assumes "0 \<le> v" "v < 2 ^ j"
  shows "\<not> bit v j"
  using assms by (simp add: bit_iff_odd)

lemma bit_sign_neg:
  fixes v :: int
  assumes "v < 0" "- (2 ^ j) \<le> v"
  shows "bit v j"
proof -
  have "v div 2 ^ j = - 1"
    using assms by (intro int_div_pos_eq [of v "2 ^ j" "- 1" "v + 2 ^ j"]) simp_all
  then show ?thesis by (simp add: bit_iff_odd)
qed

lemma parseSignedLEB128_encode:
  "parseSignedLEB128 (sleb128_encode v @ rest) = Inr (word_of_int v, rest)"
proof -
  obtain m where m: "length (sleb128_encode v) = Suc m"
    and lo: "- (64 * 128 ^ m) \<le> v" and hi: "v < 64 * 128 ^ m"
    using sleb128_encode_range by blast
  define k where "k = 7 * m + 6"
  have p: "(64 :: int) * 128 ^ m = 2 ^ k"
  proof -
    have "(128 :: int) ^ m = 2 ^ (7 * m)" by (simp add: power_mult)
    then show ?thesis by (simp add: k_def power_add)
  qed
  have sh: "7 * length (sleb128_encode v) = Suc k" by (simp add: m k_def)
  have loop: "leb128_loop 0 0 (sleb128_encode v @ rest) =
      Inr (word_of_int (take_bit (Suc k) v), Suc k, rest)"
    using leb128_loop_encode [of 0 0 v rest] by (simp add: sh)
  show ?thesis
  proof (cases "0 \<le> v")
    case True
    have "take_bit (Suc k) v = v"
      using True hi p by (simp add: take_bit_int_eq_self)
    moreover have "\<not> bit (word_of_int v :: uint64) k"
      using bit_sign_nonneg [of v k] True hi p by (simp add: bit_simps)
    then have "(word_of_int v :: uint64) AND push_bit k 1 = 0"
      by (simp add: and_exp_eq_0_iff_not_bit)
    ultimately show ?thesis
      by (simp add: parseSignedLEB128_def loop)
  next
    case False
    have tb: "take_bit (Suc k) v = v + 2 ^ Suc k"
    proof -
      have "take_bit (Suc k) v = take_bit (Suc k) (v + 2 ^ Suc k)" by (simp add: take_bit_eq_mod)
      also have "\<dots> = v + 2 ^ Suc k"
        using False lo p by (intro take_bit_int_eq_self) simp_all
      finally show ?thesis .
    qed
    have w: "(word_of_int (take_bit (Suc k) v) :: uint64) = word_of_int v + 2 ^ Suc k"
      by (simp add: tb)
    have bv: "bit v k" using bit_sign_neg [of v k] False lo p by simp
    show ?thesis
    proof (cases "k < 64")
      case True
      have "bit (word_of_int v + 2 ^ Suc k :: uint64) k"
      proof -
        have "bit (word_of_int (take_bit (Suc k) v) :: uint64) k"
          using bv True by (simp add: bit_simps)
        then show ?thesis by (simp only: w)
      qed
      then have "(word_of_int v + 2 ^ Suc k :: uint64) AND push_bit k 1 \<noteq> 0"
        by (simp add: and_exp_eq_0_iff_not_bit)
      then show ?thesis
        by (simp add: parseSignedLEB128_def loop w)
    next
      case False
      then have z: "(2 :: uint64) ^ Suc k = 0" and z': "(2 :: uint64) ^ k = 0"
        by (simp_all only: exp_eq_zero_iff) simp_all
      show ?thesis
        by (simp add: parseSignedLEB128_def loop w z z' del: power_Suc)
    qed
  qed
qed

lemma bit_groups_value_last:
  "bit (groups_value (pre @ [l])) (7 * length pre + 6) \<longleftrightarrow> bit l 6"
proof (induction pre)
  case Nil
  have "bit (unat (l AND dw_LEB_BITS)) 6 \<longleftrightarrow> bit (l AND dw_LEB_BITS) 6"
    by (simp add: bit_unsigned_iff)
  then show ?case by (simp add: bit_group_iff)
next
  case (Cons b pre)
  have lt: "unat (b AND dw_LEB_BITS) < 128"
  proof -
    have "unat (b AND dw_LEB_BITS) = unat (take_bit 7 b)"
      by (simp add: dw_LEB_BITS_mask take_bit_eq_mask)
    also have "\<dots> < 2 ^ 7"
      unfolding unsigned_take_bit_eq by (rule take_bit_nat_less_exp)
    finally show ?thesis by simp
  qed
  have "(unat (b AND dw_LEB_BITS) + 128 * groups_value (pre @ [l])) div 2 ^ (7 * length (b # pre) + 6)
      = groups_value (pre @ [l]) div 2 ^ (7 * length pre + 6)"
  proof -
    have "(2 :: nat) ^ (7 * length (b # pre) + 6) = 128 * 2 ^ (7 * length pre + 6)"
      by (simp add: power_add)
    then show ?thesis using lt by (simp add: div_mult2_eq)
  qed
  then show ?case using Cons.IH by (simp add: bit_iff_odd)
qed

lemma parseSignedLEB128_terminated:
  assumes "\<forall>b\<in>set pre. b AND dw_LEB_EXTENSION \<noteq> 0" and "l AND dw_LEB_EXTENSION = 0"
  shows "parseSignedLEB128 (pre @ l # rest) =
     Inr (if bit l 6
          then word_of_nat (groups_value (pre @ [l])) - push_bit (7 * (length pre + 1)) 1
          else word_of_nat (groups_value (pre @ [l])), rest)"
proof -
  define acc :: uint64 where "acc = word_of_nat (groups_value (pre @ [l]))"
  define k where "k = 7 * length pre + 6"
  have "leb128_loop 0 0 (pre @ l # rest) =
      Inr (0 OR push_bit 0 (word_of_nat (groups_value (pre @ [l]))), 0 + 7 * (length pre + 1), rest)"
    using assms by (rule leb128_loop_groups)
  then have loop: "leb128_loop 0 0 (pre @ l # rest) = Inr (acc, Suc k, rest)"
    by (simp add: acc_def k_def del: of_nat_add of_nat_mult)
  have test: "acc AND push_bit k 1 \<noteq> 0 \<longleftrightarrow> k < 64 \<and> bit l 6"
  proof -
    have "acc AND push_bit k 1 \<noteq> 0 \<longleftrightarrow> bit acc k"
      by (simp add: and_exp_eq_0_iff_not_bit)
    also have "\<dots> \<longleftrightarrow> k < 64 \<and> bit (groups_value (pre @ [l])) k"
      unfolding acc_def by (simp add: bit_of_nat_iff del: of_nat_add of_nat_mult)
    also have "\<dots> \<longleftrightarrow> k < 64 \<and> bit l 6"
      unfolding k_def by (simp only: bit_groups_value_last)
    finally show ?thesis .
  qed
  have res: "parseSignedLEB128 (pre @ l # rest) =
      Inr (if bit l 6 then acc - push_bit (Suc k) 1 else acc, rest)"
  proof (cases "k < 64")
    case True
    then show ?thesis using test by (simp add: parseSignedLEB128_def loop)
  next
    case False
    then have "(2 :: uint64) ^ Suc k = 0" by (simp only: exp_eq_zero_iff) simp
    then have "push_bit (Suc k) (1 :: uint64) = 0" by (simp only: push_bit_of_1)
    then show ?thesis using test False by (simp add: parseSignedLEB128_def loop del: push_bit_of_1 push_bit_Suc)
  qed
  have "7 * (length pre + 1) = Suc k" by (simp add: k_def)
  then show ?thesis using res unfolding acc_def by (simp only:)
qed

text \<open>
  Claim C5. For every 64-bit signed integer \<open>n\<close>, \<open>parseSignedLEB128\<close> on the signed
  LEB128 encoding of \<open>n\<close> (followed by any further input) returns \<open>n\<close> and leaves the
  further input unread; this covers zero, the negative values, and the least and the
  greatest \<open>int64\<close>, whose encodings take ten bytes. On any input whose number
  terminates, the result is the value of the 7-bit groups read, least significant first,
  as 64 bits, minus 1 shifted left by the number of bits read (7 for each byte) when
  the sign bit (bit 6) of the last byte is set; the subtraction is in 64-bit arithmetic,
  where 1 shifted by 64 or more is 0.
\<close>

theorem C5_parseSignedLEB128_roundtrip:
  fixes n :: int64
  shows "parseSignedLEB128 (sleb128_encode (sint n) @ rest) = Inr (n, rest) \<and>
    (\<forall>pre l. (\<forall>b\<in>set pre. b AND dw_LEB_EXTENSION \<noteq> 0) \<longrightarrow> l AND dw_LEB_EXTENSION = 0 \<longrightarrow>
       parseSignedLEB128 (pre @ l # rest) =
         Inr (if bit l 6
              then word_of_nat (groups_value (pre @ [l])) - push_bit (7 * (length pre + 1)) 1
              else word_of_nat (groups_value (pre @ [l])), rest))"
  using parseSignedLEB128_terminated by (simp add: parseSignedLEB128_encode del: of_nat_add of_nat_mult)

theorem C5_parseSignedLEB128_roundtrip_witness:
  "sleb128_encode (sint (0x8000000000000000 :: int64)) =
     [0x80, 0x80, 0x80, 0x80, 0x80, 0x80, 0x80, 0x80, 0x80, 0x7f] \<and>
   parseSignedLEB128 [0x80, 0x80, 0x80, 0x80, 0x80, 0x80, 0x80, 0x80, 0x80, 0x7f, 0x11] =
     Inr (0x8000000000000000, [0x11]) \<and>
   parseSignedLEB128 [0xc0, 0xbb, 0x78] = Inr (- 123456, [])"
proof -
  have e: "sleb128_encode (sint (0x8000000000000000 :: int64)) =
     [0x80, 0x80, 0x80, 0x80, 0x80, 0x80, 0x80, 0x80, 0x80, 0x7f]"
    by code_simp
  have 1: "parseSignedLEB128 [0x80, 0x80, 0x80, 0x80, 0x80, 0x80, 0x80, 0x80, 0x80, 0x7f, 0x11] =
     Inr (0x8000000000000000, [0x11])"
    using C5_parseSignedLEB128_roundtrip [THEN conjunct1, of "0x8000000000000000" "[0x11]"] unfolding e by simp
  have h1: "\<forall>b\<in>set [0xc0, 0xbb :: byte]. b AND dw_LEB_EXTENSION \<noteq> 0"
    by (simp add: dw_LEB_EXTENSION_def)
  have h2: "(0x78 :: byte) AND dw_LEB_EXTENSION = 0"
    by (simp add: dw_LEB_EXTENSION_def)
  have b: "bit (0x78 :: byte) 6"
    by (simp add: bit_iff_odd)
  have 2: "parseSignedLEB128 [0xc0, 0xbb, 0x78] = Inr (- 123456, [])"
    using C5_parseSignedLEB128_roundtrip [where rest = "[]", THEN conjunct2, THEN spec, THEN spec, THEN mp, THEN mp, OF h1 h2] b
    by (simp add: dw_LEB_BITS_def dw_LEB_EXTENSION_def)
  from e 1 2 show ?thesis by simp
qed

section \<open>Location expressions: proofs\<close>

lemmas dw_OP_defs = dw_OP_consts_def dw_OP_plus_def dw_OP_call_frame_cfa_def

lemma parseLocList_reaches_result:
  "parseLocList_reaches info s s' \<Longrightarrow>
   parseLocList_loop info (fst s) (snd s) = parseLocList_loop info (fst s') (snd s')"
  by (induction rule: parseLocList_reaches.induct) (simp_all add: dw_OP_defs Let_def)

lemma parseLocList_returns_reaches:
  "parseLocList_loop info stack stream = Inr v \<Longrightarrow>
   parseLocList_reaches info (stack, stream) ([v], [])"
proof (induction info stack stream rule: parseLocList_loop.induct)
  case (1 info stack)
  then have "stack = [v]"
    by (cases stack) (auto split: if_splits)
  then show ?case by (simp add: parseLocList_reaches.reaches_here)
next
  case (2 info stack instruction stream)
  show ?case
  proof (cases "instruction = dw_OP_consts")
    case True
    with "2.prems" obtain n stream' where p: "parseSignedLEB128 stream = Inr (n, stream')"
      and r: "parseLocList_loop info (stack @ [n]) stream' = Inr v"
      by (auto split: sum.splits)
    from p "2.IH"(1) [OF True p refl r] show ?thesis
      unfolding True by (rule parseLocList_reaches.reaches_consts)
  next
    case c: False
    show ?thesis
    proof (cases "instruction = dw_OP_plus")
      case True
      with c "2.prems" have l: "\<not> length stack < 2"
        and r: "parseLocList_loop info
          (take (length stack - 2) stack @ [stack ! (length stack - 1) + stack ! (length stack - 2)]) stream = Inr v"
        by (auto simp: Let_def split: if_splits)
      from l "2.IH"(2) [OF c True l refl refl r] show ?thesis
        unfolding True by (rule parseLocList_reaches.reaches_plus)
    next
      case p: False
      with c "2.prems" have f: "instruction = dw_OP_call_frame_cfa"
        and r: "parseLocList_loop info (stack @ [CanonicalFrameAddress info]) stream = Inr v"
        by (auto split: if_splits)
      from "2.IH"(3) [OF c p f r] show ?thesis
        unfolding f by (rule parseLocList_reaches.reaches_cfa)
    qed
  qed
qed

text \<open>
  Claim C6. Whenever the evaluation of an expression comes to the end of the bytes with
  a stack whose depth is not one, \<open>parseLocList\<close> fails with \<open>InvalidLocationList\<close>; the
  empty expression is such a case. Whenever it comes to the opcode \<open>dw_OP_plus\<close> with
  fewer than two entries on the stack, it fails, with the same error value. It returns
  a value \<open>v\<close> exactly when the evaluation comes to the end of the bytes with the one
  entry \<open>v\<close> on the stack.
\<close>

theorem C6_parseLocList_structural:
  "(\<forall>stack. parseLocList_reaches info ([], locList) (stack, []) \<longrightarrow> length stack \<noteq> 1 \<longrightarrow>
      parseLocList locList info = Inl InvalidLocationList) \<and>
   parseLocList [] info = Inl InvalidLocationList \<and>
   (\<forall>stack rest. parseLocList_reaches info ([], locList) (stack, dw_OP_plus # rest) \<longrightarrow>
      length stack < 2 \<longrightarrow> parseLocList locList info = Inl InvalidLocationList) \<and>
   (\<forall>v. parseLocList_reaches info ([], locList) ([v], []) \<longleftrightarrow> parseLocList locList info = Inr v)"
proof (intro conjI allI impI iffI)
  fix stack
  assume "parseLocList_reaches info ([], locList) (stack, [])" and "length stack \<noteq> 1"
  then show "parseLocList locList info = Inl InvalidLocationList"
    using parseLocList_reaches_result [of info "([], locList)" "(stack, [])"]
    by (simp add: parseLocList_def)
next
  show "parseLocList [] info = Inl InvalidLocationList"
    by (simp add: parseLocList_def)
next
  fix stack rest
  assume "parseLocList_reaches info ([], locList) (stack, dw_OP_plus # rest)" and "length stack < 2"
  then show "parseLocList locList info = Inl InvalidLocationList"
    using parseLocList_reaches_result [of info "([], locList)" "(stack, dw_OP_plus # rest)"]
    by (simp add: parseLocList_def dw_OP_defs)
next
  fix v
  assume "parseLocList_reaches info ([], locList) ([v], [])"
  then show "parseLocList locList info = Inr v"
    using parseLocList_reaches_result [of info "([], locList)" "([v], [])"]
    by (simp add: parseLocList_def)
next
  fix v
  assume "parseLocList locList info = Inr v"
  then show "parseLocList_reaches info ([], locList) ([v], [])"
    by (simp add: parseLocList_def parseLocList_returns_reaches)
qed

lemma parseSignedLEB128_5: "parseSignedLEB128 (5 # s) = Inr (5, s)"
  by (simp add: parseSignedLEB128_def dw_LEB_BITS_def dw_LEB_EXTENSION_def)

lemma parseSignedLEB128_3: "parseSignedLEB128 (3 # s) = Inr (3, s)"
  by (simp add: parseSignedLEB128_def dw_LEB_BITS_def dw_LEB_EXTENSION_def)

theorem C6_parseLocList_structural_witness:
  "parseLocList [dw_OP_consts, 5, dw_OP_consts, 3] \<lparr>CanonicalFrameAddress = 0x2000\<rparr> = Inl InvalidLocationList \<and>
   parseLocList [dw_OP_consts, 5, dw_OP_plus, dw_OP_consts, 3] \<lparr>CanonicalFrameAddress = 0x2000\<rparr> = Inl InvalidLocationList \<and>
   parseLocList_reaches \<lparr>CanonicalFrameAddress = 0x2000\<rparr> ([], [dw_OP_consts, 5]) ([5], [])"
proof -
  define info where "info = \<lparr>CanonicalFrameAddress = 0x2000\<rparr>"
  have r1: "parseLocList_reaches info ([], [dw_OP_consts, 5, dw_OP_consts, 3]) ([5, 3], [])"
    apply (rule parseLocList_reaches.reaches_consts [OF parseSignedLEB128_5])
    apply simp
    apply (rule parseLocList_reaches.reaches_consts [OF parseSignedLEB128_3])
    apply simp
    apply (rule parseLocList_reaches.reaches_here)
    done
  have r2: "parseLocList_reaches info ([], [dw_OP_consts, 5, dw_OP_plus, dw_OP_consts, 3])
      ([5], dw_OP_plus # [dw_OP_consts, 3])"
    apply (rule parseLocList_reaches.reaches_consts [OF parseSignedLEB128_5])
    apply simp
    apply (rule parseLocList_reaches.reaches_here)
    done
  have v: "parseLocList [dw_OP_consts, 5] info = Inr 5"
    by (simp add: parseLocList_def parseSignedLEB128_5)
  have 1: "parseLocList [dw_OP_consts, 5, dw_OP_consts, 3] info = Inl InvalidLocationList"
    using C6_parseLocList_structural [THEN conjunct1, rule_format, OF r1] by simp
  have 2: "parseLocList [dw_OP_consts, 5, dw_OP_plus, dw_OP_consts, 3] info = Inl InvalidLocationList"
    using C6_parseLocList_structural [THEN conjunct2, THEN conjunct2, THEN conjunct1, rule_format, OF r2]
    by simp
  have 3: "parseLocList_reaches info ([], [dw_OP_consts, 5]) ([5], [])"
    using C6_parseLocList_structural [THEN conjunct2, THEN conjunct2, THEN conjunct2, rule_format,
        of info "[dw_OP_consts, 5]" 5] v
    by simp
  from 1 2 3 show ?thesis unfolding info_def by simp
qed

text \<open>
  Claim C7. \<open>[consts 5, consts 3, plus]\<close> evaluates to 8 and \<open>[call_frame_cfa]\<close> with
  the frame address \<open>0x2000\<close> to \<open>0x2000\<close>. \<open>dw_OP_consts\<close> pushes the signed LEB128
  number that follows it, \<open>dw_OP_plus\<close> replaces the two topmost entries by their sum,
  \<open>dw_OP_call_frame_cfa\<close> pushes the frame address. Whenever the evaluation comes to
  any other opcode, \<open>parseLocList\<close> fails with \<open>UnsupportedLocationOP\<close>.
\<close>

theorem C7_parseLocList_opcodes:
  "parseLocList [dw_OP_consts, 5, dw_OP_consts, 3, dw_OP_plus] info = Inr 8 \<and>
   parseLocList [dw_OP_call_frame_cfa] \<lparr>CanonicalFrameAddress = 0x2000\<rparr> = Inr 0x2000 \<and>
   (\<forall>n stream'. parseSignedLEB128 stream = Inr (n, stream') \<longrightarrow>
      parseLocList_loop info stack (dw_OP_consts # stream) = parseLocList_loop info (stack @ [n]) stream') \<and>
   parseLocList_loop info (stack @ [b, a]) (dw_OP_plus # stream) =
     parseLocList_loop info (stack @ [a + b]) stream \<and>
   parseLocList_loop info stack (dw_OP_call_frame_cfa # stream) =
     parseLocList_loop info (stack @ [CanonicalFrameAddress info]) stream \<and>
   (\<forall>st op rest. parseLocList_reaches info ([], locList) (st, op # rest) \<longrightarrow>
      op \<notin> {dw_OP_consts, dw_OP_plus, dw_OP_call_frame_cfa} \<longrightarrow>
      parseLocList locList info = Inl UnsupportedLocationOP)"
proof (intro conjI allI impI)
  show "parseLocList [dw_OP_consts, 5, dw_OP_consts, 3, dw_OP_plus] info = Inr 8"
    by (simp add: parseLocList_def parseSignedLEB128_5 parseSignedLEB128_3 dw_OP_defs)
next
  show "parseLocList [dw_OP_call_frame_cfa] \<lparr>CanonicalFrameAddress = 0x2000\<rparr> = Inr 0x2000"
    by (simp add: parseLocList_def dw_OP_defs)
next
  fix n stream'
  assume "parseSignedLEB128 stream = Inr (n, stream')"
  then show "parseLocList_loop info stack (dw_OP_consts # stream) = parseLocList_loop info (stack @ [n]) stream'"
    by simp
next
  show "parseLocList_loop info (stack @ [b, a]) (dw_OP_plus # stream) =
     parseLocList_loop info (stack @ [a + b]) stream"
    by (simp add: dw_OP_defs Let_def nth_append)
next
  show "parseLocList_loop info stack (dw_OP_call_frame_cfa # stream) =
     parseLocList_loop info (stack @ [CanonicalFrameAddress info]) stream"
    by (simp add: dw_OP_defs)
next
  fix st op rest
  assume "parseLocList_reaches info ([], locList) (st, op # rest)"
    and "op \<notin> {dw_OP_consts, dw_OP_plus, dw_OP_call_frame_cfa}"
  then show "parseLocList locList info = Inl UnsupportedLocationOP"
    using parseLocList_reaches_result [of info "([], locList)" "(st, op # rest)"]
    by (simp add: parseLocList_def)
qed

theorem C7_parseLocList_opcodes_witness:
  "parseLocList [dw_OP_call_frame_cfa, 0x23, 8] \<lparr>CanonicalFrameAddress = 0x2000\<rparr> = Inl UnsupportedLocationOP \<and>
   parseLocList_loop \<lparr>CanonicalFrameAddress = 0x2000\<rparr> [7] (dw_OP_consts # [3, 0x22]) =
     parseLocList_loop \<lparr>CanonicalFrameAddress = 0x2000\<rparr> [7, 3] [0x22]"
proof -
  define info where "info = \<lparr>CanonicalFrameAddress = 0x2000\<rparr>"
  have r: "parseLocList_reaches info ([], [dw_OP_call_frame_cfa, 0x23, 8]) ([0x2000], 0x23 # [8])"
    apply (rule parseLocList_reaches.reaches_cfa)
    apply (simp add: info_def)
    apply (rule parseLocList_reaches.reaches_here)
    done
  have n: "(0x23 :: byte) \<notin> {dw_OP_consts, dw_OP_plus, dw_OP_call_frame_cfa}"
    by (simp add: dw_OP_defs)
  have 1: "parseLocList [dw_OP_call_frame_cfa, 0x23, 8] info = Inl UnsupportedLocationOP"
    using C7_parseLocList_opcodes [THEN conjunct2, THEN conjunct2, THEN conjunct2, THEN conjunct2,
        THEN conjunct2, rule_format, OF r n] .
  have 2: "parseLocList_loop info [7] (dw_OP_consts # [3, 0x22]) = parseLocList_loop info [7, 3] [0x22]"
    using C7_parseLocList_opcodes [THEN conjunct2, THEN conjunct2, THEN conjunct1, rule_format,
        OF parseSignedLEB128_3, of info "[7]" "[0x22]"]
    by simp
  from 1 2 show ?thesis unfolding info_def by simp
qed

section \<open>Call frame instructions and the replay of the specification\<close>

text \<open>
  The four call frame instructions that the replay supports, with their operands, and
  their DWARF encoding: the opcode byte, then a signed LEB128 number, one byte, or two
  bytes in the byte order of the region. An inline advance carries its delta in the low
  six bits of the opcode byte, so the delta is at most \<open>0x3f\<close>.
\<close>

datatype cfa_op =
    Def_cfa_offset_sf int64
  | Advance_loc byte
  | Advance_loc1 "8 word"
  | Advance_loc2 "16 word"

fun encode_cfa_op :: "ByteOrder \<Rightarrow> cfa_op \<Rightarrow> byte list" where
  "encode_cfa_op ord (Def_cfa_offset_sf delta) = dw_CFA_def_cfa_offset_sf # sleb128_encode (sint delta)"
| "encode_cfa_op ord (Advance_loc d) = [dw_CFA_advance_loc + d]"
| "encode_cfa_op ord (Advance_loc1 d) = [dw_CFA_advance_loc1, d]"
| "encode_cfa_op ord (Advance_loc2 d) =
     dw_CFA_advance_loc2 #
       (case ord of
          LittleEndian \<Rightarrow> [ucast d, ucast (drop_bit 8 d)]
        | BigEndian \<Rightarrow> [ucast (drop_bit 8 d), ucast d])"

fun well_formed_cfa_op :: "cfa_op \<Rightarrow> bool" where
  "well_formed_cfa_op (Advance_loc d) = (d \<le> 0x3f)"
| "well_formed_cfa_op _ = True"

text \<open>
  The replay as the specification words it (section 4.5), on the instructions rather
  than on their bytes: \<open>define-CFA-offset-signed\<close> sets \<open>offset\<close> to its operand times
  \<open>dataAlignmentFactor\<close>, leaves \<open>loc\<close> as it is and is never skipped; any other
  instruction is a location advance, before which the replay stops when \<open>loc > pc\<close> and
  which adds its delta (sign-extended for the one-byte and two-byte forms) times
  \<open>codeAlignmentFactor\<close> to \<open>loc\<close>. The result is the offset in effect when the replay
  stops.
\<close>

fun replay_offset :: "CommonInformationEntry \<Rightarrow> uintptr \<Rightarrow> uintptr \<Rightarrow> int64 \<Rightarrow> cfa_op list \<Rightarrow> int64" where
  "replay_offset cie pc loc offset [] = offset"
| "replay_offset cie pc loc offset (Def_cfa_offset_sf delta # ops) =
     replay_offset cie pc loc (delta * DataAlignmentFactor cie) ops"
| "replay_offset cie pc loc offset (Advance_loc d # ops) =
     (if pc < loc then offset
      else replay_offset cie pc (loc + ucast d * CodeAlignmentFactor cie) offset ops)"
| "replay_offset cie pc loc offset (Advance_loc1 d # ops) =
     (if pc < loc then offset
      else replay_offset cie pc (loc + scast d * CodeAlignmentFactor cie) offset ops)"
| "replay_offset cie pc loc offset (Advance_loc2 d # ops) =
     (if pc < loc then offset
      else replay_offset cie pc (loc + scast d * CodeAlignmentFactor cie) offset ops)"

section \<open>The frame descriptions of a region\<close>

text \<open>
  The frame descriptions that the scan of \<open>Data.CanonicalFrameAddress\<close> meets, with their
  \<open>pcstart\<close> and \<open>pccount\<close>, in the order of the region: the scan as it runs when no
  description covers the \<open>pc\<close>, up to the first record that it cannot read.
\<close>

function frame_descriptions :: "Data \<Rightarrow> byte list \<Rightarrow> (uint64 \<times> uint64) list" where
  "frame_descriptions d stream =
     (case binary_Read_uint32 (order d) stream of
        Inl err \<Rightarrow> []
      | Inr (len, s1) \<Rightarrow>
     if len < 4 then []
     else
     (case binary_Read_uint32 (order d) s1 of
        Inl err \<Rightarrow> []
      | Inr (ident, s2) \<Rightarrow>
     if ident = 0xFFFFFFFF then frame_descriptions d (drop (unat len - 4) s2)
     else if len < 20 then []
     else
     (case binary_Read_uint64 (order d) s2 of
        Inl err \<Rightarrow> []
      | Inr (pcstart, s3) \<Rightarrow>
     (case binary_Read_uint64 (order d) s3 of
        Inl err \<Rightarrow> []
      | Inr (pccount, s4) \<Rightarrow>
          (pcstart, pccount) # frame_descriptions d (drop (unat len - 20) s4)))))"
  by pat_completeness auto
termination
proof (relation "measure (\<lambda>(d, stream). length stream)")
  show "wf (measure (\<lambda>(d, stream). length stream))" by simp
next
  fix d :: Data and stream x2 len s1 x2a ident s2
  assume "binary_Read_uint32 (order d) stream = Inr x2" "(len, s1) = x2"
    "binary_Read_uint32 (order d) s1 = Inr x2a" "(ident, s2) = x2a"
  then have "length s1 < length stream" "length s2 < length s1"
    by (auto simp: binary_Read_uint32_def split: sum.splits dest: ReadFull_length)
  then show "((d, drop (unat len - 4) s2), d, stream) \<in> measure (\<lambda>(d, stream). length stream)"
    by simp
next
  fix d :: Data and stream x2 len s1 x2a ident s2 x2b pcstart s3 x2c pccount s4
  assume "binary_Read_uint32 (order d) stream = Inr x2" "(len, s1) = x2"
    "binary_Read_uint32 (order d) s1 = Inr x2a" "(ident, s2) = x2a"
    "binary_Read_uint64 (order d) s2 = Inr x2b" "(pcstart, s3) = x2b"
    "binary_Read_uint64 (order d) s3 = Inr x2c" "(pccount, s4) = x2c"
  then have "length s1 < length stream" "length s2 < length s1"
    "length s3 < length s2" "length s4 < length s3"
    by (auto simp: binary_Read_uint32_def binary_Read_uint64_def split: sum.splits
        dest: ReadFull_length)
  then show "((d, drop (unat len - 20) s4), d, stream) \<in> measure (\<lambda>(d, stream). length stream)"
    by simp
qed

section \<open>The example of the specification\<close>

text \<open>
  The region of the example: one common information entry (version 3, no augmentation,
  code alignment 1, data alignment -8, return column \<open>R\<close>, initial instructions
  \<open>def_cfa(7, 8)\<close>) at offset 0, and one frame description for \<open>[0x2000, 0x2100)\<close> that
  refers to it, with the instructions \<open>advance_loc(0x23)\<close>, \<open>def_cfa_offset_sf(2)\<close>.
\<close>

definition example_frame :: "byte \<Rightarrow> byte list" where
  "example_frame R =
     [0x0c, 0, 0, 0, 0xff, 0xff, 0xff, 0xff, 3, 0, 0x01, 0x78, R, 0x0c, 0x07, 0x08,
      0x17, 0, 0, 0, 0, 0, 0, 0, 0x00, 0x20, 0, 0, 0, 0, 0, 0, 0x00, 0x01, 0, 0, 0, 0, 0, 0,
      0x63, 0x13, 0x02]"

definition example_data :: "byte \<Rightarrow> Data" where
  "example_data R = \<lparr>frame = example_frame R, order = LittleEndian\<rparr>"

section \<open>Call frame information: proofs\<close>

lemmas read_defs = binary_Read_uint32_def binary_Read_uint64_def ReadFull_def Read_def decode_word_def
lemmas leb_defs = parseSignedLEB128_def parseUnsignedLEB128_def dw_LEB_BITS_def dw_LEB_EXTENSION_def

lemma leb128_loop_error: "leb128_loop n shift bs = Inl e \<Longrightarrow> e = EOF"
  by (induction bs arbitrary: n shift) (auto simp: Let_def split: if_splits)

lemma parseUnsignedLEB128_error: "parseUnsignedLEB128 bs = Inl e \<Longrightarrow> e = EOF"
  by (auto simp: parseUnsignedLEB128_def split: sum.splits dest: leb128_loop_error)

lemma parseSignedLEB128_error: "parseSignedLEB128 bs = Inl e \<Longrightarrow> e = EOF"
  by (auto simp: parseSignedLEB128_def split: sum.splits if_splits dest: leb128_loop_error)

lemma ReadFull_error: "ReadFull k s = Inl e \<Longrightarrow> e = EOF \<or> e = ErrUnexpectedEOF"
  by (auto simp: ReadFull_def split: if_splits)

lemma Update_error: "fst (Update cie stream) \<noteq> FrameDataDidntIncludePc"
  by (induction cie stream rule: Update.induct)
     (auto split: sum.splits dest: parseUnsignedLEB128_error parseSignedLEB128_error)

lemma Update_error_pair: "Update cie stream = (e, cie') \<Longrightarrow> e \<noteq> FrameDataDidntIncludePc"
  using Update_error [of cie stream] by simp

lemma parseCommonInformationEntry_error:
  "parseCommonInformationEntry d ident \<noteq> Inl FrameDataDidntIncludePc"
  unfolding parseCommonInformationEntry_def binary_Read_uint32_def Read_def
  by (auto simp: Let_def split: sum.splits prod.splits if_splits
      dest: ReadFull_error parseUnsignedLEB128_error parseSignedLEB128_error Update_error_pair
      elim!: ReadByte.elims)

lemma CanonicalFrameAddress_loop_error:
  "CanonicalFrameAddress_loop cie pc sp loc offset stream \<noteq> Inl FrameDataDidntIncludePc"
  by (induction cie pc sp loc offset stream rule: CanonicalFrameAddress_loop.induct)
     (auto simp: cie_Read_int8_def cie_Read_int16_def split: sum.splits option.splits
      dest: parseSignedLEB128_error ReadFull_error)

lemma Data_CanonicalFrameAddress_loop_error:
  "Data_CanonicalFrameAddress_loop d pc sp stream \<noteq> Inl FrameDataDidntIncludePc"
proof (induction d pc sp stream rule: Data_CanonicalFrameAddress_loop.induct)
  case (1 d pc sp stream)
  show ?case
    apply (subst Data_CanonicalFrameAddress_loop.simps)
    using 1
    apply (auto simp: binary_Read_uint32_def binary_Read_uint64_def Read_def
        CIE_CanonicalFrameAddress_def CanonicalFrameAddress_loop_error parseCommonInformationEntry_error
        simp del: Data_CanonicalFrameAddress_loop.simps
        split: sum.splits prod.splits if_splits dest: ReadFull_error)
    done
qed

lemma Data_CanonicalFrameAddress_never_not_found:
  "Data_CanonicalFrameAddress d pc sp \<noteq> Inl FrameDataDidntIncludePc"
  by (simp add: Data_CanonicalFrameAddress_def Data_CanonicalFrameAddress_loop_error
      del: Data_CanonicalFrameAddress_loop.simps)

lemma Read_length: "Read n s = Inr (entry, s') \<Longrightarrow> length entry = n"
  by (auto simp: Read_def split: if_splits)

lemma binary_Read_uint32_needs_4:
  "binary_Read_uint32 ord s = Inr (v, s') \<Longrightarrow> 4 \<le> length s"
  by (auto simp: binary_Read_uint32_def ReadFull_def split: if_splits)

lemma entry_len_ok:
  fixes len :: uint32
  assumes "Read (unat len) s1 = Inr (entry, s2)" "binary_Read_uint32 ord entry = Inr (mark, s3)"
  shows "\<not> len < 4"
proof -
  have "4 \<le> unat len" using assms Read_length binary_Read_uint32_needs_4 by fastforce
  then show ?thesis by (simp add: word_less_nat_alt)
qed

text \<open>
  Claim C8. Take a record of the region whose length and bytes are read and which starts
  with the marker \<open>0xFFFFFFFF\<close> followed by a version byte. If the version byte is not
  3, \<open>parseCommonInformationEntry\<close> fails with \<open>UnsupportedDwarfVersion\<close>. If the
  augmentation byte that follows is not 0, it fails, whatever bytes come after: with
  \<open>UnhandledDwarfAugmentation\<close> when the version is 3 (with the version error
  otherwise), and so it decodes no alignment factor, return column or rule.
\<close>

theorem C8_parseCommonInformationEntry_unsupported:
  assumes "binary_Read_uint32 (order d) (drop (unat ident) (frame d)) = Inr (len, s1)"
    and "Read (unat len) s1 = Inr (entry, s2)"
    and "binary_Read_uint32 (order d) entry = Inr (0xFFFFFFFF, version # rest)"
  shows "(version \<noteq> 3 \<longrightarrow>
            parseCommonInformationEntry d ident = Inl (UnsupportedDwarfVersion version)) \<and>
         (\<forall>augmentation rest'. rest = augmentation # rest' \<longrightarrow> augmentation \<noteq> 0 \<longrightarrow>
            (version = 3 \<longrightarrow> parseCommonInformationEntry d ident = Inl UnhandledDwarfAugmentation) \<and>
            parseCommonInformationEntry d ident \<in>
              {Inl (UnsupportedDwarfVersion version), Inl UnhandledDwarfAugmentation})"
proof -
  have l: "\<not> len < 4" using assms(2,3) by (rule entry_len_ok)
  show ?thesis
    using assms l by (auto simp: parseCommonInformationEntry_def)
qed

theorem C8_parseCommonInformationEntry_unsupported_witness:
  "parseCommonInformationEntry
     \<lparr>frame = [0x0c, 0, 0, 0, 0xff, 0xff, 0xff, 0xff, 2, 0, 0x01, 0x78, 0x10, 0x0c, 0x07, 0x08],
      order = LittleEndian\<rparr> 0 = Inl (UnsupportedDwarfVersion 2) \<and>
   parseCommonInformationEntry
     \<lparr>frame = [0, 0, 0, 0x0e, 0xff, 0xff, 0xff, 0xff, 3, 0x7a, 0x52, 0, 0x01, 0x78, 0x10, 0x0c, 0x07, 0x08],
      order = BigEndian\<rparr> 0 = Inl UnhandledDwarfAugmentation"
proof -
  define d2 :: Data where "d2 =
     \<lparr>frame = [0x0c, 0, 0, 0, 0xff, 0xff, 0xff, 0xff, 2, 0, 0x01, 0x78, 0x10, 0x0c, 0x07, 0x08],
      order = LittleEndian\<rparr>"
  define dz :: Data where "dz =
     \<lparr>frame = [0, 0, 0, 0x0e, 0xff, 0xff, 0xff, 0xff, 3, 0x7a, 0x52, 0, 0x01, 0x78, 0x10, 0x0c, 0x07, 0x08],
      order = BigEndian\<rparr>"
  have a1: "binary_Read_uint32 (order d2) (drop (unat (0 :: uint32)) (frame d2)) =
      Inr (12, [0xff, 0xff, 0xff, 0xff, 2, 0, 0x01, 0x78, 0x10, 0x0c, 0x07, 0x08])"
    by (simp add: d2_def read_defs)
  have a2: "Read (unat (12 :: uint32)) [0xff, 0xff, 0xff, 0xff, 2, 0, 0x01, 0x78, 0x10, 0x0c, 0x07, 0x08] =
      Inr ([0xff, 0xff, 0xff, 0xff, 2, 0, 0x01, 0x78, 0x10, 0x0c, 0x07, 0x08], [])"
    by (simp add: read_defs)
  have a3: "binary_Read_uint32 (order d2) [0xff, 0xff, 0xff, 0xff, 2, 0, 0x01, 0x78, 0x10, 0x0c, 0x07, 0x08] =
      Inr (0xFFFFFFFF, 2 # [0, 0x01, 0x78, 0x10, 0x0c, 0x07, 0x08])"
    by (simp add: d2_def read_defs)
  have b1: "binary_Read_uint32 (order dz) (drop (unat (0 :: uint32)) (frame dz)) =
      Inr (14, [0xff, 0xff, 0xff, 0xff, 3, 0x7a, 0x52, 0, 0x01, 0x78, 0x10, 0x0c, 0x07, 0x08])"
    by (simp add: dz_def read_defs)
  have b2: "Read (unat (14 :: uint32)) [0xff, 0xff, 0xff, 0xff, 3, 0x7a, 0x52, 0, 0x01, 0x78, 0x10, 0x0c, 0x07, 0x08] =
      Inr ([0xff, 0xff, 0xff, 0xff, 3, 0x7a, 0x52, 0, 0x01, 0x78, 0x10, 0x0c, 0x07, 0x08], [])"
    by (simp add: read_defs)
  have b3: "binary_Read_uint32 (order dz) [0xff, 0xff, 0xff, 0xff, 3, 0x7a, 0x52, 0, 0x01, 0x78, 0x10, 0x0c, 0x07, 0x08] =
      Inr (0xFFFFFFFF, 3 # [0x7a, 0x52, 0, 0x01, 0x78, 0x10, 0x0c, 0x07, 0x08])"
    by (simp add: dz_def read_defs)
  have 1: "parseCommonInformationEntry d2 0 = Inl (UnsupportedDwarfVersion 2)"
    using C8_parseCommonInformationEntry_unsupported [OF a1 a2 a3] by simp
  have 2: "parseCommonInformationEntry dz 0 = Inl UnhandledDwarfAugmentation"
    using C8_parseCommonInformationEntry_unsupported [OF b1 b2 b3] by simp
  from 1 2 show ?thesis unfolding d2_def dz_def by simp
qed

lemma example_cie:
  "parseCommonInformationEntry (example_data R) 0 =
   Inr \<lparr>CodeAlignmentFactor = 1, DataAlignmentFactor = - 8, ReturnColumn = R,
        InitialLocation = 0, AddressRange = 0, Instructions = [],
        StackRegister = 7, StackOffset = 8, ColumnValue = 0, cie_order = None\<rparr>"
  by (simp add: parseCommonInformationEntry_def example_data_def example_frame_def read_defs leb_defs
      dw_CFA_defs)

lemma example_data_every_pc:
  assumes "0x2000 \<le> pc" "pc < 0x2100"
  shows "Data_CanonicalFrameAddress (example_data R) pc sp = Inr (sp - 16)"
proof -
  have g: "\<not> pc < 0x2000" using assms(1) by simp
  have "Data_CanonicalFrameAddress (example_data R) pc sp =
      CIE_CanonicalFrameAddress
        \<lparr>CodeAlignmentFactor = 1, DataAlignmentFactor = - 8, ReturnColumn = R,
         InitialLocation = 0x2000, AddressRange = 0x100, Instructions = [0x63, 0x13, 0x02],
         StackRegister = 7, StackOffset = 8, ColumnValue = 0, cie_order = Some LittleEndian\<rparr> pc sp"
    unfolding Data_CanonicalFrameAddress_def
    apply (subst Data_CanonicalFrameAddress_loop.simps)
    apply (simp add: example_data_def example_frame_def read_defs
        del: Data_CanonicalFrameAddress_loop.simps)
    apply (subst Data_CanonicalFrameAddress_loop.simps)
    apply (simp add: example_cie [unfolded example_data_def example_frame_def] read_defs assms
        del: Data_CanonicalFrameAddress_loop.simps)
    done
  also have "\<dots> = Inr (sp - 16)"
    using g by (simp add: CIE_CanonicalFrameAddress_def dw_CFA_defs leb_defs)
  finally show ?thesis .
qed

text \<open>
  Claim C1, evaluated on the code. In the region of the claim, with any return column
  \<open>R\<close> and any \<open>sp\<close>, a \<open>pc\<close> before the advance (\<open>0x2000\<close>, \<open>0x2022\<close>) gives
  \<open>sp - 16\<close>, not \<open>sp + 8\<close>: the \<open>dw_CFA_def_cfa_offset_sf\<close> that follows the advance is
  applied before the test \<open>loc > pc\<close> is made again.
\<close>

theorem C1_example_before_advance:
  "Data_CanonicalFrameAddress (example_data R) 0x2000 sp = Inr (sp - 16) \<and>
   Data_CanonicalFrameAddress (example_data R) 0x2022 sp = Inr (sp - 16) \<and>
   Data_CanonicalFrameAddress (example_data R) 0x2000 0x10000 \<noteq> Inr (0x10000 + 8)"
  by (simp add: example_data_every_pc)

lemma decode_word_int16:
  "decode_word ord (case ord of
          LittleEndian \<Rightarrow> [ucast d, ucast (drop_bit 8 d)]
        | BigEndian \<Rightarrow> [ucast (drop_bit 8 d), ucast d]) = (d :: 16 word)"
proof -
  have "ucast (ucast d :: byte) OR push_bit 8 (ucast (ucast (drop_bit 8 d) :: byte)) = d"
    by (rule bit_eqI) (auto simp: bit_simps)
  then show ?thesis by (cases ord) (simp_all add: decode_word_def)
qed

lemma cie_Read_int16_encoded:
  "cie_Read_int16 (Some ord) ((case ord of
          LittleEndian \<Rightarrow> [ucast d, ucast (drop_bit 8 d)]
        | BigEndian \<Rightarrow> [ucast (drop_bit 8 d), ucast d]) @ rest) = Inr (d, rest)"
  using decode_word_int16 [of ord d]
  by (cases ord) (simp_all add: cie_Read_int16_def ReadFull_def)

lemma cie_Read_int8_byte: "cie_Read_int8 ord (d # rest) = Inr (d, rest)"
  by (simp add: cie_Read_int8_def ReadFull_def)

lemma inline_opcode:
  fixes d :: byte
  assumes "d \<le> 0x3f"
  shows "dw_CFA_advance_loc \<le> dw_CFA_advance_loc + d" "dw_CFA_advance_loc + d \<le> 0x80"
    "dw_CFA_advance_loc + d - 0x40 = d"
    "dw_CFA_advance_loc + d \<noteq> dw_CFA_def_cfa_offset_sf"
    "dw_CFA_advance_loc + d \<noteq> dw_CFA_advance_loc1"
    "dw_CFA_advance_loc + d \<noteq> dw_CFA_advance_loc2"
proof -
  have u: "unat d \<le> 63" using assms by (simp add: word_le_nat_alt)
  have s: "unat (0x40 + d) = 64 + unat d"
    using u by (simp add: unat_word_ariths)
  show "dw_CFA_advance_loc \<le> dw_CFA_advance_loc + d"
    using s by (simp add: dw_CFA_advance_loc_def word_le_nat_alt)
  show "dw_CFA_advance_loc + d \<le> 0x80"
    using s u by (simp add: dw_CFA_advance_loc_def word_le_nat_alt)
  show "dw_CFA_advance_loc + d - 0x40 = d"
    by (simp add: dw_CFA_advance_loc_def)
  show "dw_CFA_advance_loc + d \<noteq> dw_CFA_def_cfa_offset_sf"
    using s by (auto simp: dw_CFA_defs word_unat_eq_iff)
  show "dw_CFA_advance_loc + d \<noteq> dw_CFA_advance_loc1"
    using s by (auto simp: dw_CFA_defs word_unat_eq_iff)
  show "dw_CFA_advance_loc + d \<noteq> dw_CFA_advance_loc2"
    using s by (auto simp: dw_CFA_defs word_unat_eq_iff)
qed

lemma step_def_cfa_offset_sf:
  "CanonicalFrameAddress_loop cie pc sp loc offset (encode_cfa_op ord (Def_cfa_offset_sf delta) @ rest) =
   CanonicalFrameAddress_loop cie pc sp loc (delta * DataAlignmentFactor cie) rest"
  by (simp add: parseSignedLEB128_encode)

lemma step_advance_loc:
  assumes "d \<le> 0x3f"
  shows "CanonicalFrameAddress_loop cie pc sp loc offset (encode_cfa_op ord (Advance_loc d) @ rest) =
   (if pc < loc then Inr (sp + offset)
    else CanonicalFrameAddress_loop cie pc sp (loc + ucast d * CodeAlignmentFactor cie) offset rest)"
proof -
  note o = inline_opcode [OF assms]
  have "CanonicalFrameAddress_loop cie pc sp loc offset ((dw_CFA_advance_loc + d) # rest) =
   (if pc < loc then Inr (sp + offset)
    else CanonicalFrameAddress_loop cie pc sp
      (loc + ucast (dw_CFA_advance_loc + d - 0x40) * CodeAlignmentFactor cie) offset rest)"
    by (simp add: o(1,2,4,5,6))
  then show ?thesis by (simp only: o(3) encode_cfa_op.simps append_Cons append_Nil)
qed

lemma step_advance_loc1:
  "CanonicalFrameAddress_loop cie pc sp loc offset (encode_cfa_op ord (Advance_loc1 d) @ rest) =
   (if pc < loc then Inr (sp + offset)
    else CanonicalFrameAddress_loop cie pc sp (loc + scast d * CodeAlignmentFactor cie) offset rest)"
  by (simp add: dw_CFA_defs cie_Read_int8_byte)

lemma step_advance_loc2:
  assumes "cie_order cie = Some ord"
  shows "CanonicalFrameAddress_loop cie pc sp loc offset (encode_cfa_op ord (Advance_loc2 d) @ rest) =
   (if pc < loc then Inr (sp + offset)
    else CanonicalFrameAddress_loop cie pc sp (loc + scast d * CodeAlignmentFactor cie) offset rest)"
proof -
  have n: "dw_CFA_advance_loc2 \<noteq> dw_CFA_def_cfa_offset_sf" "dw_CFA_advance_loc2 \<noteq> dw_CFA_advance_loc1"
    by (simp_all add: dw_CFA_defs)
  show ?thesis
    unfolding encode_cfa_op.simps append_Cons
    by (simp add: n assms cie_Read_int16_encoded)
qed

lemma CanonicalFrameAddress_loop_replay:
  assumes "cie_order cie = Some ord" and "\<forall>op\<in>set ops. well_formed_cfa_op op"
  shows "CanonicalFrameAddress_loop cie pc sp loc offset (concat (map (encode_cfa_op ord) ops)) =
     Inr (sp + replay_offset cie pc loc offset ops)"
  using assms(2)
proof (induction ops arbitrary: loc offset)
  case Nil
  show ?case by simp
next
  case (Cons op ops)
  then have ih: "\<And>loc offset.
      CanonicalFrameAddress_loop cie pc sp loc offset (concat (map (encode_cfa_op ord) ops)) =
      Inr (sp + replay_offset cie pc loc offset ops)"
    by simp
  let ?rest = "concat (map (encode_cfa_op ord) ops)"
  have c: "concat (map (encode_cfa_op ord) (x # ops)) = encode_cfa_op ord x @ ?rest" for x
    by simp
  show ?case
  proof (cases op)
    case (Def_cfa_offset_sf delta)
    have "CanonicalFrameAddress_loop cie pc sp loc offset (encode_cfa_op ord op @ ?rest) =
        CanonicalFrameAddress_loop cie pc sp loc (delta * DataAlignmentFactor cie) ?rest"
      unfolding Def_cfa_offset_sf by (rule step_def_cfa_offset_sf)
    also have "\<dots> = Inr (sp + replay_offset cie pc loc (delta * DataAlignmentFactor cie) ops)"
      by (rule ih)
    finally show ?thesis unfolding c Def_cfa_offset_sf replay_offset.simps .
  next
    case (Advance_loc d)
    with Cons.prems have d: "d \<le> 0x3f" by simp
    have "CanonicalFrameAddress_loop cie pc sp loc offset (encode_cfa_op ord op @ ?rest) =
        (if pc < loc then Inr (sp + offset)
         else CanonicalFrameAddress_loop cie pc sp
           (loc + ucast d * CodeAlignmentFactor cie) offset ?rest)"
      unfolding Advance_loc using d by (rule step_advance_loc)
    also have "\<dots> = Inr (sp + replay_offset cie pc loc offset (Advance_loc d # ops))"
      unfolding ih replay_offset.simps by (cases "pc < loc") (simp_all only: if_True if_False)
    finally show ?thesis unfolding c Advance_loc .
  next
    case (Advance_loc1 d)
    have "CanonicalFrameAddress_loop cie pc sp loc offset (encode_cfa_op ord op @ ?rest) =
        (if pc < loc then Inr (sp + offset)
         else CanonicalFrameAddress_loop cie pc sp
           (loc + scast d * CodeAlignmentFactor cie) offset ?rest)"
      unfolding Advance_loc1 by (rule step_advance_loc1)
    also have "\<dots> = Inr (sp + replay_offset cie pc loc offset (Advance_loc1 d # ops))"
      unfolding ih replay_offset.simps by (cases "pc < loc") (simp_all only: if_True if_False)
    finally show ?thesis unfolding c Advance_loc1 .
  next
    case (Advance_loc2 d)
    have "CanonicalFrameAddress_loop cie pc sp loc offset (encode_cfa_op ord op @ ?rest) =
        (if pc < loc then Inr (sp + offset)
         else CanonicalFrameAddress_loop cie pc sp
           (loc + scast d * CodeAlignmentFactor cie) offset ?rest)"
      unfolding Advance_loc2 using assms(1) by (rule step_advance_loc2)
    also have "\<dots> = Inr (sp + replay_offset cie pc loc offset (Advance_loc2 d # ops))"
      unfolding ih replay_offset.simps by (cases "pc < loc") (simp_all only: if_True if_False)
    finally show ?thesis unfolding c Advance_loc2 .
  qed
qed

lemma CanonicalFrameAddress_loop_stopped:
  "pc < loc \<Longrightarrow> pc' < loc' \<Longrightarrow>
   CanonicalFrameAddress_loop cie pc sp loc offset stream =
   CanonicalFrameAddress_loop cie pc' sp loc' offset stream"
proof (induction cie pc sp loc offset stream rule: CanonicalFrameAddress_loop.induct)
  case (1 cie pc sp loc offset)
  show ?case by simp
next
  case (2 cie pc sp loc offset instruction stream)
  show ?case
  proof (cases "instruction = dw_CFA_def_cfa_offset_sf")
    case True
    show ?thesis
    proof (cases "parseSignedLEB128 stream")
      case (Inl err)
      with True show ?thesis by simp
    next
      case (Inr r)
      obtain delta stream' where r: "r = (delta, stream')" by (cases r)
      have "CanonicalFrameAddress_loop cie pc sp loc (delta * DataAlignmentFactor cie) stream' =
            CanonicalFrameAddress_loop cie pc' sp loc' (delta * DataAlignmentFactor cie) stream'"
        using "2.IH"(1) [OF True Inr r [symmetric]] "2.prems" by simp
      then show ?thesis using True Inr r by simp
    qed
  next
    case False
    then show ?thesis using "2.prems" by simp
  qed
qed

text \<open>
  Claim C2. On the bytes of any sequence of supported instructions, the replay of
  \<open>CommonInformationEntry.CanonicalFrameAddress\<close> returns the signed sum of \<open>sp\<close> and the
  offset that the replay of the specification ends with, as a 64-bit address. Once
  \<open>loc > pc\<close>, the rest of the replay no longer depends on \<open>loc\<close> or \<open>pc\<close>. Step by step,
  for every state of the loop: \<open>dw_CFA_def_cfa_offset_sf\<close> sets \<open>offset\<close> to the decoded
  number times \<open>DataAlignmentFactor\<close> and leaves \<open>loc\<close> as it is, whether or not
  \<open>loc > pc\<close>; on any other opcode the replay stops with the current offset when
  \<open>loc > pc\<close>, and otherwise the opcode is a location advance (one signed byte, two
  signed bytes, or the inline delta, times \<open>CodeAlignmentFactor\<close>) that keeps the offset,
  or the replay fails with \<open>UnknownOpCode\<close>; at the end of the instructions the replay
  stops. The replay starts from \<open>InitialLocation\<close> and \<open>StackOffset\<close>.
\<close>

theorem C2_CanonicalFrameAddress_replay:
  "(\<forall>ord ops. cie_order cie = Some ord \<longrightarrow> (\<forall>op\<in>set ops. well_formed_cfa_op op) \<longrightarrow>
      CanonicalFrameAddress_loop cie pc sp loc offset (concat (map (encode_cfa_op ord) ops)) =
        Inr (word_of_int (sint sp + sint (replay_offset cie pc loc offset ops)))) \<and>
   (\<forall>pc' loc'. pc < loc \<longrightarrow> pc' < loc' \<longrightarrow>
      CanonicalFrameAddress_loop cie pc sp loc offset stream =
      CanonicalFrameAddress_loop cie pc' sp loc' offset stream) \<and>
   (\<forall>delta stream'. parseSignedLEB128 stream = Inr (delta, stream') \<longrightarrow>
      CanonicalFrameAddress_loop cie pc sp loc offset (dw_CFA_def_cfa_offset_sf # stream) =
      CanonicalFrameAddress_loop cie pc sp loc (delta * DataAlignmentFactor cie) stream') \<and>
   (\<forall>instruction. instruction \<noteq> dw_CFA_def_cfa_offset_sf \<longrightarrow> pc < loc \<longrightarrow>
      CanonicalFrameAddress_loop cie pc sp loc offset (instruction # stream) =
      Inr (word_of_int (sint sp + sint offset))) \<and>
   (\<forall>instruction. instruction \<noteq> dw_CFA_def_cfa_offset_sf \<longrightarrow> \<not> pc < loc \<longrightarrow>
      CanonicalFrameAddress_loop cie pc sp loc offset (instruction # stream) =
        (if instruction = dw_CFA_advance_loc1 then
           (case cie_Read_int8 (cie_order cie) stream of
              Inl err \<Rightarrow> Inl err
            | Inr (delta, stream') \<Rightarrow>
                CanonicalFrameAddress_loop cie pc sp
                  (loc + scast delta * CodeAlignmentFactor cie) offset stream')
         else if instruction = dw_CFA_advance_loc2 then
           (case cie_Read_int16 (cie_order cie) stream of
              Inl err \<Rightarrow> Inl err
            | Inr (delta, stream') \<Rightarrow>
                CanonicalFrameAddress_loop cie pc sp
                  (loc + scast delta * CodeAlignmentFactor cie) offset stream')
         else if dw_CFA_advance_loc \<le> instruction \<and> instruction \<le> 0x80 then
           CanonicalFrameAddress_loop cie pc sp
             (loc + ucast (instruction - 0x40) * CodeAlignmentFactor cie) offset stream
         else Inl (UnknownOpCode instruction))) \<and>
   CanonicalFrameAddress_loop cie pc sp loc offset [] = Inr (word_of_int (sint sp + sint offset)) \<and>
   CIE_CanonicalFrameAddress cie pc sp =
     CanonicalFrameAddress_loop cie pc sp (InitialLocation cie) (StackOffset cie) (Instructions cie)"
proof (intro conjI allI impI)
  fix ord ops
  assume "cie_order cie = Some ord" "\<forall>op\<in>set ops. well_formed_cfa_op op"
  then show "CanonicalFrameAddress_loop cie pc sp loc offset (concat (map (encode_cfa_op ord) ops)) =
        Inr (word_of_int (sint sp + sint (replay_offset cie pc loc offset ops)))"
    by (simp add: CanonicalFrameAddress_loop_replay)
next
  fix pc' loc' :: uintptr
  assume "pc < loc" "pc' < loc'"
  then show "CanonicalFrameAddress_loop cie pc sp loc offset stream =
      CanonicalFrameAddress_loop cie pc' sp loc' offset stream"
    by (rule CanonicalFrameAddress_loop_stopped)
next
  fix delta stream'
  assume "parseSignedLEB128 stream = Inr (delta, stream')"
  then show "CanonicalFrameAddress_loop cie pc sp loc offset (dw_CFA_def_cfa_offset_sf # stream) =
      CanonicalFrameAddress_loop cie pc sp loc (delta * DataAlignmentFactor cie) stream'"
    by simp
next
  fix instruction
  assume "instruction \<noteq> dw_CFA_def_cfa_offset_sf" "pc < loc"
  then show "CanonicalFrameAddress_loop cie pc sp loc offset (instruction # stream) =
      Inr (word_of_int (sint sp + sint offset))"
    by simp
next
  fix instruction
  assume n: "instruction \<noteq> dw_CFA_def_cfa_offset_sf" "\<not> pc < loc"
  show "CanonicalFrameAddress_loop cie pc sp loc offset (instruction # stream) =
        (if instruction = dw_CFA_advance_loc1 then
           (case cie_Read_int8 (cie_order cie) stream of
              Inl err \<Rightarrow> Inl err
            | Inr (delta, stream') \<Rightarrow>
                CanonicalFrameAddress_loop cie pc sp
                  (loc + scast delta * CodeAlignmentFactor cie) offset stream')
         else if instruction = dw_CFA_advance_loc2 then
           (case cie_Read_int16 (cie_order cie) stream of
              Inl err \<Rightarrow> Inl err
            | Inr (delta, stream') \<Rightarrow>
                CanonicalFrameAddress_loop cie pc sp
                  (loc + scast delta * CodeAlignmentFactor cie) offset stream')
         else if dw_CFA_advance_loc \<le> instruction \<and> instruction \<le> 0x80 then
           CanonicalFrameAddress_loop cie pc sp
             (loc + ucast (instruction - 0x40) * CodeAlignmentFactor cie) offset stream
         else Inl (UnknownOpCode instruction))"
    using n by simp
next
  show "CanonicalFrameAddress_loop cie pc sp loc offset [] = Inr (word_of_int (sint sp + sint offset))"
    by simp
next
  show "CIE_CanonicalFrameAddress cie pc sp =
     CanonicalFrameAddress_loop cie pc sp (InitialLocation cie) (StackOffset cie) (Instructions cie)"
    by (rule CIE_CanonicalFrameAddress_def)
qed

theorem C2_CanonicalFrameAddress_replay_witness:
  "CanonicalFrameAddress_loop
     \<lparr>CodeAlignmentFactor = 1, DataAlignmentFactor = - 8, ReturnColumn = 0x10,
      InitialLocation = 0x2000, AddressRange = 0x100, Instructions = [],
      StackRegister = 7, StackOffset = 8, ColumnValue = 0, cie_order = Some LittleEndian\<rparr>
     0x2000 0x10000 0x2000 8 [0x63, 0x13, 0x02, 0x02, 0x01, 0x13, 0x03] = Inr 0xFFF0 \<and>
   CanonicalFrameAddress_loop
     \<lparr>CodeAlignmentFactor = 1, DataAlignmentFactor = - 8, ReturnColumn = 0x10,
      InitialLocation = 0x2000, AddressRange = 0x100, Instructions = [],
      StackRegister = 7, StackOffset = 8, ColumnValue = 0, cie_order = Some LittleEndian\<rparr>
     0x2023 0x10000 0x2000 8 [0x63, 0x13, 0x02, 0x02, 0x01, 0x13, 0x03] = Inr 0xFFE8 \<and>
   CanonicalFrameAddress_loop
     \<lparr>CodeAlignmentFactor = 1, DataAlignmentFactor = - 8, ReturnColumn = 0x10,
      InitialLocation = 0x2000, AddressRange = 0x100, Instructions = [],
      StackRegister = 7, StackOffset = 8, ColumnValue = 0, cie_order = Some LittleEndian\<rparr>
     0x2000 0x10000 0x2023 8 [0x02, 0x01] = Inr 0x10008"
proof -
  define cie where "cie =
     \<lparr>CodeAlignmentFactor = 1, DataAlignmentFactor = - 8, ReturnColumn = 0x10,
      InitialLocation = 0x2000, AddressRange = 0x100, Instructions = [],
      StackRegister = 7, StackOffset = 8, ColumnValue = 0, cie_order = Some LittleEndian\<rparr>"
  define ops where "ops = [Advance_loc 0x23, Def_cfa_offset_sf 2, Advance_loc1 1, Def_cfa_offset_sf 3]"
  have enc: "concat (map (encode_cfa_op LittleEndian) ops) = [0x63, 0x13, 0x02, 0x02, 0x01, 0x13, 0x03]"
    unfolding ops_def by code_simp
  have ord: "cie_order cie = Some LittleEndian"
    by (simp add: cie_def)
  have wf: "\<forall>op\<in>set ops. well_formed_cfa_op op"
    by (simp add: ops_def)
  have r: "CanonicalFrameAddress_loop cie pc 0x10000 0x2000 8 [0x63, 0x13, 0x02, 0x02, 0x01, 0x13, 0x03] =
      Inr (word_of_int (sint (0x10000 :: uintptr) + sint (replay_offset cie pc 0x2000 8 ops)))" for pc
    using C2_CanonicalFrameAddress_replay [THEN conjunct1, THEN spec, THEN spec, THEN mp, THEN mp, OF ord wf]
    unfolding enc .
  have 1: "CanonicalFrameAddress_loop cie 0x2000 0x10000 0x2000 8 [0x63, 0x13, 0x02, 0x02, 0x01, 0x13, 0x03] =
      Inr 0xFFF0"
    unfolding r by (simp add: ops_def cie_def)
  have 2: "CanonicalFrameAddress_loop cie 0x2023 0x10000 0x2000 8 [0x63, 0x13, 0x02, 0x02, 0x01, 0x13, 0x03] =
      Inr 0xFFE8"
    unfolding r by (simp add: ops_def cie_def)
  have n: "(0x02 :: byte) \<noteq> dw_CFA_def_cfa_offset_sf"
    by (simp add: dw_CFA_defs)
  have l: "(0x2000 :: uintptr) < 0x2023" by simp
  have 3: "CanonicalFrameAddress_loop cie 0x2000 0x10000 0x2023 8 [0x02, 0x01] = Inr 0x10008"
    using C2_CanonicalFrameAddress_replay
      [THEN conjunct2, THEN conjunct2, THEN conjunct2, THEN conjunct1, THEN spec, THEN mp, THEN mp, OF n l,
       of cie "0x10000" 8 "[0x01]"]
    by simp
  from 1 2 3 show ?thesis unfolding cie_def by simp
qed

lemma inline_delta:
  fixes i :: byte
  assumes "0x40 \<le> i" "i \<le> 0x7f"
  shows "i - 0x40 = i AND 0x3f"
proof -
  have u: "64 \<le> unat i" "unat i \<le> 127"
    using assms by (simp_all add: word_le_nat_alt)
  have "unat (i - 0x40) = unat i - 64"
    using assms(1) by (simp add: unat_sub)
  moreover have "unat (i AND 0x3f) = unat i mod 64"
  proof -
    have "i AND 0x3f = take_bit 6 i"
      by (simp add: take_bit_eq_mask mask_eq_exp_minus_1)
    then have "unat (i AND 0x3f) = take_bit 6 (unat i)"
      by (simp only: unsigned_take_bit_eq)
    then show ?thesis by (simp add: take_bit_eq_mod)
  qed
  moreover have "unat i mod 64 = unat i - 64"
  proof -
    define k where "k = unat i - 64"
    have "unat i = 64 + k" "k < 64" using u by (simp_all add: k_def)
    then show ?thesis by simp
  qed
  ultimately have "unat (i - 0x40) = unat (i AND 0x3f)" by simp
  then show ?thesis by (simp only: word_unat_eq_iff)
qed

lemma CanonicalFrameAddress_loop_inline_advance:
  assumes "0x40 \<le> instruction" "instruction \<le> 0x7f" "\<not> pc < loc"
  shows "CanonicalFrameAddress_loop cie pc sp loc offset (instruction # stream) =
     CanonicalFrameAddress_loop cie pc sp
       (loc + ucast (instruction AND 0x3f) * CodeAlignmentFactor cie) offset stream"
proof -
  have n: "instruction \<noteq> 0x13" "instruction \<noteq> 0x02" "instruction \<noteq> 0x03"
    using assms(1) by auto
  have le: "instruction \<le> 0x80"
    using assms(2) by (simp add: word_le_nat_alt)
  show ?thesis
    using assms n le by (simp add: dw_CFA_defs inline_delta)
qed

lemma CanonicalFrameAddress_loop_unknown:
  assumes "instruction \<notin> {dw_CFA_def_cfa_offset_sf, dw_CFA_advance_loc1, dw_CFA_advance_loc2}"
    and "\<not> (0x40 \<le> instruction \<and> instruction \<le> 0x80)" and "\<not> pc < loc"
  shows "CanonicalFrameAddress_loop cie pc sp loc offset (instruction # stream) =
     Inl (UnknownOpCode instruction)"
  using assms by (auto simp: dw_CFA_advance_loc_def)

text \<open>
  Claim C3, evaluated on the code. The opcode byte \<open>0x80\<close>, reached with \<open>loc \<le> pc\<close>,
  does not fail: it advances \<open>loc\<close> by \<open>0x40\<close> times \<open>CodeAlignmentFactor\<close> and the replay
  goes on. With the instructions \<open>[0x80]\<close> the replay returns \<open>sp + 8\<close>.
\<close>

theorem C3_opcode_0x80_advances:
  "CanonicalFrameAddress_loop cie pc sp loc offset (0x80 # stream) =
     (if pc < loc then Inr (sp + offset)
      else CanonicalFrameAddress_loop cie pc sp (loc + 0x40 * CodeAlignmentFactor cie) offset stream) \<and>
   CIE_CanonicalFrameAddress
     \<lparr>CodeAlignmentFactor = 1, DataAlignmentFactor = - 8, ReturnColumn = 0x10,
      InitialLocation = 0x2000, AddressRange = 0x100, Instructions = [0x80],
      StackRegister = 7, StackOffset = 8, ColumnValue = 0, cie_order = Some LittleEndian\<rparr>
     0x2000 0x10000 = Inr 0x10008"
  by (simp add: CIE_CanonicalFrameAddress_def dw_CFA_defs)

declare frame_descriptions.simps [simp del]

lemma Data_CanonicalFrameAddress_loop_covered:
  "Data_CanonicalFrameAddress_loop d pc sp stream = Inr v \<Longrightarrow>
   \<exists>(pcstart, pccount) \<in> set (frame_descriptions d stream). pcstart \<le> pc \<and> pc < pcstart + pccount"
proof (induction d pc sp stream rule: Data_CanonicalFrameAddress_loop.induct)
  case (1 d pc sp stream)
  let ?P = "\<lambda>s. \<exists>(pcstart, pccount) \<in> set (frame_descriptions d s). pcstart \<le> pc \<and> pc < pcstart + pccount"
  have r: "Data_CanonicalFrameAddress_loop d pc sp stream = Inr v" by fact
  obtain len s1 where a1: "binary_Read_uint32 (order d) stream = Inr (len, s1)"
    using r by (subst (asm) Data_CanonicalFrameAddress_loop.simps) (auto split: sum.splits)
  have a2: "\<not> len < 4"
    using r a1 by (subst (asm) Data_CanonicalFrameAddress_loop.simps) (auto split: if_splits)
  obtain ident s2 where a3: "binary_Read_uint32 (order d) s1 = Inr (ident, s2)"
    using r a1 a2 by (subst (asm) Data_CanonicalFrameAddress_loop.simps) (auto split: sum.splits)
  show ?case
  proof (cases "ident = 0xFFFFFFFF")
    case True
    have "Data_CanonicalFrameAddress_loop d pc sp (drop (unat len - 4) s2) = Inr v"
      using r a1 a2 a3 True by (subst (asm) Data_CanonicalFrameAddress_loop.simps) simp
    then have "?P (drop (unat len - 4) s2)"
      using "1.IH"(1) [OF a1 refl a2 a3 refl True] by simp
    then show ?thesis
      using a1 a2 a3 True by (subst frame_descriptions.simps) simp
  next
    case False
    have a4: "\<not> len < 20"
      using r a1 a2 a3 False by (subst (asm) Data_CanonicalFrameAddress_loop.simps) (auto split: if_splits)
    obtain pcstart s3 where a5: "binary_Read_uint64 (order d) s2 = Inr (pcstart, s3)"
      using r a1 a2 a3 False a4
      by (subst (asm) Data_CanonicalFrameAddress_loop.simps) (auto split: sum.splits)
    obtain pccount s4 where a6: "binary_Read_uint64 (order d) s3 = Inr (pccount, s4)"
      using r a1 a2 a3 False a4 a5
      by (subst (asm) Data_CanonicalFrameAddress_loop.simps) (auto split: sum.splits)
    have fd: "frame_descriptions d stream =
        (pcstart, pccount) # frame_descriptions d (drop (unat len - 20) s4)"
      using a1 a2 a3 False a4 a5 a6 by (subst frame_descriptions.simps) simp
    show ?thesis
    proof (cases "pcstart \<le> pc \<and> pc < pcstart + pccount")
      case True
      then show ?thesis by (simp add: fd)
    next
      case f: False
      have "Data_CanonicalFrameAddress_loop d pc sp (drop (unat len - 20) s4) = Inr v"
        using r a1 a2 a3 False a4 a5 a6 f
        by (subst (asm) Data_CanonicalFrameAddress_loop.simps) simp
      then have "?P (drop (unat len - 20) s4)"
        using "1.IH"(2) [OF a1 refl a2 a3 refl False a4 a5 refl a6 refl f] by simp
      then show ?thesis by (simp add: fd)
    qed
  qed
qed

lemma uncovered_pc_fails:
  assumes "\<forall>(pcstart, pccount) \<in> set (frame_descriptions d (frame d)). \<not> (pcstart \<le> pc \<and> pc < pcstart + pccount)"
  shows "\<exists>e. Data_CanonicalFrameAddress d pc sp = Inl e"
proof (cases "Data_CanonicalFrameAddress d pc sp")
  case (Inl e)
  then show ?thesis by blast
next
  case (Inr v)
  then have "Data_CanonicalFrameAddress_loop d pc sp (frame d) = Inr v"
    by (simp add: Data_CanonicalFrameAddress_def)
  then have "\<exists>(pcstart, pccount) \<in> set (frame_descriptions d (frame d)). pcstart \<le> pc \<and> pc < pcstart + pccount"
    by (rule Data_CanonicalFrameAddress_loop_covered)
  with assms show ?thesis by blast
qed

text \<open>
  Claim C4, evaluated on the code. On the empty region, and on the region of claim C1
  with a \<open>pc\<close> that no frame description covers, \<open>Data.CanonicalFrameAddress\<close> returns
  the bare \<open>io.EOF\<close>; and on no input at all does it return the error
  \<open>FrameDataDidntIncludePc\<close>.
\<close>

theorem C4_end_of_region_is_EOF:
  "Data_CanonicalFrameAddress \<lparr>frame = [], order = ord\<rparr> pc sp = Inl EOF \<and>
   Data_CanonicalFrameAddress (example_data R) 0x2100 sp = Inl EOF \<and>
   Data_CanonicalFrameAddress d pc sp \<noteq> Inl FrameDataDidntIncludePc"
proof -
  have "Data_CanonicalFrameAddress (example_data R) 0x2100 sp = Inl EOF"
    unfolding Data_CanonicalFrameAddress_def
    apply (subst Data_CanonicalFrameAddress_loop.simps)
    apply (simp add: example_data_def example_frame_def read_defs
        del: Data_CanonicalFrameAddress_loop.simps)
    apply (subst Data_CanonicalFrameAddress_loop.simps)
    apply (simp add: read_defs del: Data_CanonicalFrameAddress_loop.simps)
    apply (subst Data_CanonicalFrameAddress_loop.simps)
    apply (simp add: read_defs del: Data_CanonicalFrameAddress_loop.simps)
    done
  moreover have "Data_CanonicalFrameAddress \<lparr>frame = [], order = ord\<rparr> pc sp = Inl EOF"
    unfolding Data_CanonicalFrameAddress_def
    by (subst Data_CanonicalFrameAddress_loop.simps) (simp add: read_defs)
  ultimately show ?thesis
    using Data_CanonicalFrameAddress_never_not_found by simp
qed

lemma Update_unsupported:
  assumes "instruction \<notin> {dw_CFA_def_cfa, dw_CFA_nop, dw_CFA_offset + ReturnColumn cie}"
  shows "Update cie (instruction # stream) = (UnsuportedCFAOp instruction, cie)"
  using assms by simp

lemma Update_clean_end: "Update cie [] = (EOF, cie)"
  by simp

lemma parseCommonInformationEntry_unsupported_op:
  assumes "instruction \<notin> {dw_CFA_def_cfa, dw_CFA_nop, dw_CFA_offset + R}"
  shows "parseCommonInformationEntry
     \<lparr>frame = [0x0a, 0, 0, 0, 0xff, 0xff, 0xff, 0xff, 3, 0, 0x01, 0x78, R, instruction], order = LittleEndian\<rparr> 0 =
     Inl (UnsuportedCFAOp instruction)"
  using assms by (simp add: parseCommonInformationEntry_def read_defs leb_defs)

text \<open>
  Claim C9, evaluated on the code. A record whose initial instructions are a
  \<open>dw_CFA_def_cfa\<close> cut off after its first operand is accepted: the \<open>io.EOF\<close> met inside
  the operand is taken for the end of the instructions, and the entry returned has
  \<open>StackRegister\<close> and \<open>StackOffset\<close> still 0.
\<close>

theorem C9_truncated_def_cfa_accepted:
  "parseCommonInformationEntry
     \<lparr>frame = [0x0b, 0, 0, 0, 0xff, 0xff, 0xff, 0xff, 3, 0, 0x01, 0x78, 0x10, dw_CFA_def_cfa, 0x07],
      order = LittleEndian\<rparr> 0 =
   Inr \<lparr>CodeAlignmentFactor = 1, DataAlignmentFactor = - 8, ReturnColumn = 0x10,
        InitialLocation = 0, AddressRange = 0, Instructions = [],
        StackRegister = 0, StackOffset = 0, ColumnValue = 0, cie_order = None\<rparr>"
  by (simp add: parseCommonInformationEntry_def read_defs leb_defs dw_CFA_defs)

end
